theory Spec2Isabelle
  imports Main
begin

section \<open>Data model\<close>

text \<open>
  The program is \<^verbatim>\<open>save_ipv6_channels.py\<close>: it parses a line based channel list into a
  dictionary from category label to a list of channels, keeps the channels whose URL looks
  like an IPv6 address, removes duplicate names per category and writes the result back in
  the same layout.

  A channel is the two-key dictionary \<^verbatim>\<open>{'name': ..., 'url': ...}\<close> that the parser
  builds. Python strings are sequences of code points; they are modelled by \<open>string\<close>,
  one \<open>char\<close> per code point (so the model covers the code points below 256).
\<close>

record channel =
  name :: string
  url :: string

text \<open>
  A Catalog is a Python \<^verbatim>\<open>dict\<close> (a \<^verbatim>\<open>defaultdict(list)\<close>): its keys are distinct
  and it iterates in insertion order. It is modelled by an association list in insertion
  order; \<open>wf_dict\<close> says that the keys are distinct.
\<close>

type_synonym catalog = "(string \<times> channel list) list"

definition wf_dict :: "('k \<times> 'v) list \<Rightarrow> bool" where
  "wf_dict d = distinct (map fst d)"

text \<open>\<^verbatim>\<open>d[k] = v\<close>: an existing key keeps its position, a new key goes last.\<close>

fun dict_set :: "'k \<Rightarrow> 'v \<Rightarrow> ('k \<times> 'v) list \<Rightarrow> ('k \<times> 'v) list" where
  "dict_set k v [] = [(k, v)]"
| "dict_set k v ((k', v') # d) =
     (if k' = k then (k', v) # d else (k', v') # dict_set k v d)"

text \<open>
  \<^verbatim>\<open>d[k].append(v)\<close> on a \<^verbatim>\<open>defaultdict(list)\<close>: a missing key is first inserted
  (last) with the empty list, then the value is appended to the key's list.
\<close>

fun dd_append :: "'k \<Rightarrow> 'v \<Rightarrow> ('k \<times> 'v list) list \<Rightarrow> ('k \<times> 'v list) list" where
  "dd_append k v [] = [(k, [v])]"
| "dd_append k v ((k', vs) # d) =
     (if k' = k then (k', vs @ [v]) # d else (k', vs) # dd_append k v d)"

section \<open>The string operations of Python that the program calls\<close>

text \<open>
  \<^verbatim>\<open>str.isspace\<close> on one character, which is what \<^verbatim>\<open>str.strip()\<close> removes: the
  code points 9 to 13, 28 to 32, 133 and 160 (among those below 256).
\<close>

definition py_isspace :: "char \<Rightarrow> bool" where
  "py_isspace c =
     (let n = (of_char c :: nat)
      in (9 \<le> n \<and> n \<le> 13) \<or> (28 \<le> n \<and> n \<le> 32) \<or> n = 133 \<or> n = 160)"

definition py_strip :: "string \<Rightarrow> string" where
  "py_strip s = rev (dropWhile py_isspace (rev (dropWhile py_isspace s)))"

definition py_startswith :: "string \<Rightarrow> string \<Rightarrow> bool" where
  "py_startswith s pre = (take (length pre) s = pre)"

definition py_endswith :: "string \<Rightarrow> string \<Rightarrow> bool" where
  "py_endswith s suf =
     (length suf \<le> length s \<and> drop (length s - length suf) s = suf)"

text \<open>
  \<^verbatim>\<open>s.replace(old, new)\<close> replaces every occurrence of \<open>old\<close>, scanning from the left
  and continuing after each replaced occurrence. (With an empty \<open>old\<close> Python puts
  \<open>new\<close> around every character.)
\<close>

fun replace_scan :: "string \<Rightarrow> string \<Rightarrow> string \<Rightarrow> string" where
  "replace_scan [] old new = []"
| "replace_scan (c # cs) old new =
     (if py_startswith (c # cs) old
      then new @ replace_scan (drop (length old - 1) cs) old new
      else c # replace_scan cs old new)"

definition py_replace :: "string \<Rightarrow> string \<Rightarrow> string \<Rightarrow> string" where
  "py_replace s old new =
     (if old = [] then new @ concat (map (\<lambda>c. c # new) s) else replace_scan s old new)"

text \<open>\<^verbatim>\<open>s.split(sep, 1)\<close> for a one-character separator: at most one split, at the first
  separator.\<close>

definition py_split1 :: "string \<Rightarrow> char \<Rightarrow> string list" where
  "py_split1 s sep =
     (if sep \<in> set s
      then [takeWhile (\<lambda>c. c \<noteq> sep) s, tl (dropWhile (\<lambda>c. c \<noteq> sep) s)]
      else [s])"

text \<open>The text \<^verbatim>\<open>str(n)\<close> of a natural number, for the console messages.\<close>

definition digit_char :: "nat \<Rightarrow> char" where
  "digit_char d = char_of (48 + d)"

fun str_nat :: "nat \<Rightarrow> string" where
  "str_nat n = (if n < 10 then [digit_char n] else str_nat (n div 10) @ [digit_char (n mod 10)])"

declare str_nat.simps [simp del]

section \<open>Files and the console\<close>

text \<open>
  The file system is a map from path to text; the console is the list of the strings
  printed so far. Opening an existing file for reading and opening a file for writing are
  taken to succeed.
\<close>

record world =
  files :: "string \<rightharpoonup> string"
  console :: "string list"

definition print :: "string \<Rightarrow> world \<Rightarrow> world" where
  "print s w = w\<lparr>console := console w @ [s]\<rparr>"

text \<open>
  Iterating over a file opened in text mode yields its lines, each ending in
  \<^verbatim>\<open>'\n'\<close>, except possibly the last one. With the default universal newlines a line
  ends at \<^verbatim>\<open>'\n'\<close>, at \<^verbatim>\<open>'\r\n'\<close> or at a lone \<^verbatim>\<open>'\r'\<close>, and each of them is read
  as \<^verbatim>\<open>'\n'\<close>. \<open>cur\<close> is the line read so far.
\<close>

abbreviation LF :: char where "LF \<equiv> CHR 0x0A"
abbreviation CR :: char where "CR \<equiv> CHR 0x0D"

fun lines_from :: "string \<Rightarrow> string \<Rightarrow> string list" where
  "lines_from cur [] = (if cur = [] then [] else [cur])"
| "lines_from cur (c # cs) =
     (if c = LF then (cur @ [LF]) # lines_from [] cs
      else if c = CR then (cur @ [LF]) # lines_from [] (if cs \<noteq> [] \<and> hd cs = LF then tl cs else cs)
      else lines_from (cur @ [c]) cs)"

definition file_lines :: "string \<Rightarrow> string list" where
  "file_lines text = lines_from [] text"

section \<open>Parser: \<^verbatim>\<open>read_result_file\<close>\<close>

text \<open>
  The body of the loop over the lines. The state is the pair of the dictionary
  \<^verbatim>\<open>channels\<close> and the variable \<^verbatim>\<open>current_category\<close>.
\<close>

definition parse_line :: "catalog \<times> string \<Rightarrow> string \<Rightarrow> catalog \<times> string" where
  "parse_line st raw =
     (let (channels, current_category) = st;
          line = py_strip raw
      in if line = [] then st
         else if py_endswith line '',#genre#''
           then (channels, py_replace line '',#genre#'' [])
         else if CHR '','' \<in> set line
           then (case py_split1 line CHR '','' of
                   [n, u] \<Rightarrow> (dd_append current_category \<lparr>name = n, url = u\<rparr> channels,
                              current_category)
                 | _ \<Rightarrow> st)
         else st)"

definition parse_lines :: "string list \<Rightarrow> catalog" where
  "parse_lines ls = fst (foldl parse_line ([], []) ls)"

definition read_result_file :: "string \<Rightarrow> world \<Rightarrow> catalog \<times> world" where
  "read_result_file file_path w =
     (case files w file_path of
        None \<Rightarrow> ([], print (''Result file not found: '' @ file_path) w)
      | Some text \<Rightarrow> (parse_lines (file_lines text), w))"

section \<open>Classifier: \<^verbatim>\<open>is_ipv6_url\<close>\<close>

text \<open>
  The five patterns use only this part of the regular expressions of \<^verbatim>\<open>re\<close>: a
  sequence of items, each a literal character or a bracket expression (a set of
  characters), possibly followed by \<^verbatim>\<open>+\<close>. The capture group of the first pattern
  does not change what matches. \<open>re_search\<close> says whether \<^verbatim>\<open>re.search\<close> finds a match
  (returns something other than \<^verbatim>\<open>None\<close>): whether the pattern matches at some position.
\<close>

datatype re_atom = Lit char | Cls "char list"

datatype re_item = Once re_atom | Plus re_atom

type_synonym regex = "re_item list"

fun atom_matches :: "re_atom \<Rightarrow> char \<Rightarrow> bool" where
  "atom_matches (Lit a) c = (c = a)"
| "atom_matches (Cls as) c = (c \<in> set as)"

fun match_here :: "regex \<Rightarrow> string \<Rightarrow> bool" where
  "match_here [] s = True"
| "match_here (Once a # r) [] = False"
| "match_here (Once a # r) (c # cs) = (atom_matches a c \<and> match_here r cs)"
| "match_here (Plus a # r) [] = False"
| "match_here (Plus a # r) (c # cs) =
     (atom_matches a c \<and> (match_here (Plus a # r) cs \<or> match_here r cs))"

fun re_search :: "regex \<Rightarrow> string \<Rightarrow> bool" where
  "re_search r [] = match_here r []"
| "re_search r (c # cs) = (match_here r (c # cs) \<or> re_search r cs)"

definition re_literal :: "string \<Rightarrow> regex" where
  "re_literal s = map (\<lambda>c. Once (Lit c)) s"

text \<open>The bracket expression \<^verbatim>\<open>[0-9a-fA-F:]\<close>, its ranges written out.\<close>

definition hex_colon :: "char list" where
  "hex_colon = ''0123456789abcdefABCDEF:''"

definition ipv6_patterns :: "regex list" where
  "ipv6_patterns =
     [ [Once (Lit CHR ''[''), Plus (Cls hex_colon), Once (Lit CHR '']'')],
       re_literal ''2409:8087:'',
       re_literal ''2001:'',
       re_literal ''::1'',
       re_literal ''fe80:'' ]"

text \<open>The loop over the patterns, which returns at the first one found.\<close>

fun search_any :: "regex list \<Rightarrow> string \<Rightarrow> bool" where
  "search_any [] u = False"
| "search_any (p # ps) u = (if re_search p u then True else search_any ps u)"

definition is_ipv6_url :: "string \<Rightarrow> bool" where
  "is_ipv6_url u = search_any ipv6_patterns u"

section \<open>Filter: \<^verbatim>\<open>filter_ipv6_channels\<close>\<close>

definition filter_category ::
  "catalog \<Rightarrow> string \<times> channel list \<Rightarrow> catalog" where
  "filter_category ipv6_channels item =
     (let (category, channel_list) = item
      in foldl (\<lambda>acc ch. if is_ipv6_url (url ch) then dd_append category ch acc else acc)
           ipv6_channels channel_list)"

definition filter_ipv6_channels :: "catalog \<Rightarrow> catalog" where
  "filter_ipv6_channels channels = foldl filter_category [] channels"

section \<open>Deduplicator: \<^verbatim>\<open>remove_duplicates_keep_best\<close>\<close>

text \<open>
  The body of the inner loop: \<^verbatim>\<open>seen_names\<close> is a dictionary from name to channel.
  A name not yet seen is recorded; a name seen before is replaced when the new URL is
  strictly shorter.
\<close>

definition keep_best :: "(string \<times> channel) list \<Rightarrow> channel \<Rightarrow> (string \<times> channel) list" where
  "keep_best seen_names ch =
     (case map_of seen_names (name ch) of
        None \<Rightarrow> dict_set (name ch) ch seen_names
      | Some existing \<Rightarrow>
          if length (url ch) < length (url existing)
          then dict_set (name ch) ch seen_names
          else seen_names)"

definition dedup_list :: "channel list \<Rightarrow> channel list" where
  "dedup_list channel_list = map snd (foldl keep_best [] channel_list)"

text \<open>The body of the outer loop: \<^verbatim>\<open>deduplicated[category] = list(seen_names.values())\<close>.\<close>

definition dedup_step :: "catalog \<Rightarrow> string \<times> channel list \<Rightarrow> catalog" where
  "dedup_step deduplicated item =
     (case item of (category, channel_list) \<Rightarrow>
        dict_set category (dedup_list channel_list) deduplicated)"

definition remove_duplicates_keep_best :: "catalog \<Rightarrow> catalog" where
  "remove_duplicates_keep_best channels = foldl dedup_step [] channels"

section \<open>Serializer: \<^verbatim>\<open>save_channels_to_file\<close>\<close>

text \<open>
  The state of the loop over the categories is the text written so far and the flag
  \<^verbatim>\<open>first_category\<close>.
\<close>

definition write_channel :: "string \<Rightarrow> channel \<Rightarrow> string" where
  "write_channel f ch = f @ name ch @ '','' @ url ch @ [LF]"

definition write_category :: "string \<times> bool \<Rightarrow> string \<times> channel list \<Rightarrow> string \<times> bool" where
  "write_category st item =
     (let (f, first_category) = st;
          (category, channel_list) = item
      in if channel_list = [] then st
         else
           let f1 = (if \<not> first_category then f @ [LF] else f);
               f2 = f1 @ category @ '',#genre#'' @ [LF]
           in (foldl write_channel f2 channel_list, False))"

definition written_text :: "catalog \<Rightarrow> string" where
  "written_text channels = fst (foldl write_category ([], True) channels)"

definition save_channels_to_file :: "catalog \<Rightarrow> string \<Rightarrow> world \<Rightarrow> world" where
  "save_channels_to_file channels file_path w =
     w\<lparr>files := (files w)(file_path \<mapsto> written_text channels)\<rparr>"

section \<open>The run: \<^verbatim>\<open>main\<close>\<close>

definition result_file :: string where
  "result_file = ''output/result.txt''"

definition ipv6_file :: string where
  "ipv6_file = ''output/ipv6_channels.txt''"

definition total_channels :: "catalog \<Rightarrow> nat" where
  "total_channels channels = sum_list (map (\<lambda>(category, ch). length ch) channels)"

definition print_summary :: "catalog \<Rightarrow> world \<Rightarrow> world" where
  "print_summary final_channels w =
     foldl (\<lambda>w (category, channel_list).
              if channel_list \<noteq> []
              then print (''  '' @ category @ '': '' @ str_nat (length channel_list) @ '' channels'') w
              else w)
       w final_channels"

definition main :: "world \<Rightarrow> world" where
  "main w0 =
     (let w1 = print ''Reading result file...'' w0;
          (channels, w2) = read_result_file result_file w1
      in if channels = [] then print ''No channels found in result file'' w2
         else
           let w3 = print (''Found '' @ str_nat (total_channels channels)
                           @ '' total channels across '' @ str_nat (length channels)
                           @ '' categories'') w2;
               w4 = print ''Filtering IPv6 channels...'' w3;
               ipv6_channels = filter_ipv6_channels channels
           in if ipv6_channels = [] then print ''No IPv6 channels found'' w4
              else
                let w5 = print (''Found '' @ str_nat (total_channels ipv6_channels)
                                @ '' IPv6 channels'') w4;
                    w6 = print ''Removing duplicates...'' w5;
                    final_channels = remove_duplicates_keep_best ipv6_channels;
                    w7 = print (''After deduplication: ''
                                @ str_nat (total_channels final_channels)
                                @ '' unique IPv6 channels'') w6;
                    w8 = print (''Saving IPv6 channels to '' @ ipv6_file @ ''...'') w7;
                    w9 = save_channels_to_file final_channels ipv6_file w8;
                    w10 = print ([LF] @ ''Summary of IPv6 channels by category:'') w9;
                    w11 = print_summary final_channels w10
                in print ([LF] @ ''IPv6 channels saved to: '' @ ipv6_file) w11)"

text \<open>
  The rule of the specification for two channels of one name: the recorded one is replaced
  when the new URL is strictly shorter; on a tie the recorded one stays.
\<close>

definition better :: "channel \<Rightarrow> channel \<Rightarrow> channel" where
  "better recorded ch = (if length (url ch) < length (url recorded) then ch else recorded)"

text \<open>
  The distinct elements of a list, in the order of their first occurrence.
\<close>

fun first_occurrences :: "'a list \<Rightarrow> 'a list" where
  "first_occurrences [] = []"
| "first_occurrences (x # xs) = x # first_occurrences (filter (\<lambda>y. y \<noteq> x) xs)"

text \<open>
  The deduplication of one category as the specification words it: the first channel is
  the first occurrence of its name; the later channels of that name compete with it, in
  order, by \<open>better\<close>; the channels of the other names follow in the same way.
\<close>

fun spec_dedup :: "channel list \<Rightarrow> channel list" where
  "spec_dedup [] = []"
| "spec_dedup (c # cs) =
     foldl better c (filter (\<lambda>d. name d = name c) cs)
       # spec_dedup (filter (\<lambda>d. name d \<noteq> name c) cs)"

text \<open>
  The invariant of \<^verbatim>\<open>seen_names\<close>: distinct keys, and each key is the name of its channel.
\<close>

definition seen_ok :: "(string \<times> channel) list \<Rightarrow> bool" where
  "seen_ok seen = (distinct (map fst seen) \<and> list_all (\<lambda>(n, ch). name ch = n) seen)"

text \<open>
  A catalog with distinct keys whose categories are unchanged by \<open>dedup_list\<close>.
\<close>

definition deduped :: "catalog \<Rightarrow> bool" where
  "deduped d = (distinct (map fst d) \<and> list_all (\<lambda>(k, l). dedup_list l = l) d)"

text \<open>
  The serialized layout as the specification words it. A channel's line is
  \<^verbatim>\<open><name>,<url>\<close> and a line terminator.
\<close>

definition channel_line :: "channel \<Rightarrow> string" where
  "channel_line ch = name ch @ '','' @ url ch @ [LF]"

text \<open>
  A category's block: the header line \<^verbatim>\<open><category>,#genre#\<close>, then one line per channel in
  the category's order.
\<close>

definition category_block :: "string \<times> channel list \<Rightarrow> string" where
  "category_block item =
     (case item of (category, channel_list) \<Rightarrow>
        category @ '',#genre#'' @ [LF] @ concat (map channel_line channel_list))"

text \<open>
  The blocks with one blank separator line before each block but the first.
\<close>

fun join_blocks :: "string list \<Rightarrow> string" where
  "join_blocks [] = []"
| "join_blocks [b] = b"
| "join_blocks (b # b' # bs) = b @ [LF] @ join_blocks (b' # bs)"

text \<open>
  The categories that are written: those whose channel sequence is not empty.
\<close>

definition emitted :: "catalog \<Rightarrow> catalog" where
  "emitted channels = filter (\<lambda>(category, channel_list). channel_list \<noteq> []) channels"

text \<open>
  The whole file: the blocks of the non-empty categories, in catalog order, separated by
  blank lines, and nothing else.
\<close>

definition spec_text :: "catalog \<Rightarrow> string" where
  "spec_text channels = join_blocks (map category_block (emitted channels))"

text \<open>
  The character class of the first rule as the specification words it, by code point and
  not by enumeration: a hex digit is a decimal digit or one of the letters \<^verbatim>\<open>a\<close> to
  \<^verbatim>\<open>f\<close>, in either case.
\<close>

definition in_range :: "char \<Rightarrow> char \<Rightarrow> char \<Rightarrow> bool" where
  "in_range lo hi c = ((of_char lo :: nat) \<le> of_char c \<and> (of_char c :: nat) \<le> of_char hi)"

definition hex_digit_or_colon :: "char \<Rightarrow> bool" where
  "hex_digit_or_colon c =
     (in_range CHR ''0'' CHR ''9'' c \<or> in_range CHR ''a'' CHR ''f'' c
      \<or> in_range CHR ''A'' CHR ''F'' c \<or> c = CHR '':'')"

text \<open>
  What the parser's \<^verbatim>\<open>strip\<close> leaves of a channel: the name does not begin with a
  whitespace character and the URL does not end with one.
\<close>

definition clean_channel :: "channel \<Rightarrow> bool" where
  "clean_channel ch =
     ((name ch = [] \<or> \<not> py_isspace (hd (name ch)))
      \<and> (url ch = [] \<or> \<not> py_isspace (last (url ch))))"

text \<open>
  Every channel of every category is clean.
\<close>

definition clean_catalog :: "catalog \<Rightarrow> bool" where
  "clean_catalog c = list_all (\<lambda>(category, chs). list_all clean_channel chs) c"

text \<open>
  What a line of the input is to the parser, by the tests of its loop body: a marker line
  (with the label that it makes current), a channel line (with its channel), or a line
  that is skipped.
\<close>

datatype event = Marker string | Entry channel

definition line_event :: "string \<Rightarrow> event option" where
  "line_event raw =
     (let line = py_strip raw
      in if line = [] then None
         else if py_endswith line '',#genre#''
           then Some (Marker (py_replace line '',#genre#'' []))
         else if CHR '','' \<in> set line
           then (case py_split1 line CHR '','' of
                   [n, u] \<Rightarrow> Some (Entry \<lparr>name = n, url = u\<rparr>)
                 | _ \<Rightarrow> None)
         else None)"

text \<open>
  The marker lines and channel lines of a file, in input order.
\<close>

fun events :: "string list \<Rightarrow> event list" where
  "events [] = []"
| "events (raw # ls) = (case line_event raw of None \<Rightarrow> events ls | Some e \<Rightarrow> e # events ls)"

text \<open>
  The labels of the marker lines, in input order.
\<close>

fun marker_labels :: "event list \<Rightarrow> string list" where
  "marker_labels [] = []"
| "marker_labels (Marker l # es) = l # marker_labels es"
| "marker_labels (Entry ch # es) = marker_labels es"

text \<open>
  The channel lines, in input order, each with the label under which it stands: the
  label of the last marker line before it, or \<open>cur\<close> when there is none.
\<close>

fun tagged :: "string \<Rightarrow> event list \<Rightarrow> (string \<times> channel) list" where
  "tagged cur [] = []"
| "tagged cur (Marker l # es) = tagged l es"
| "tagged cur (Entry ch # es) = (cur, ch) # tagged cur es"

text \<open>
  The channels that stand under a label, from all its blocks, in input order.
\<close>

definition channels_under :: "string \<Rightarrow> (string \<times> channel) list \<Rightarrow> channel list" where
  "channels_under l ps = map snd (filter (\<lambda>p. fst p = l) ps)"

text \<open>
  One entry per label under which a channel line stands, in the order of the first such
  channel line, holding all the channels under the label.
\<close>

definition merged :: "(string \<times> channel) list \<Rightarrow> catalog" where
  "merged ps = map (\<lambda>l. (l, channels_under l ps)) (first_occurrences (map fst ps))"

text \<open>
  \<^verbatim>\<open>channels[label].append(channel)\<close> for a labelled channel.
\<close>

definition add_channel :: "catalog \<Rightarrow> string \<times> channel \<Rightarrow> catalog" where
  "add_channel d p = dd_append (fst p) (snd p) d"

text \<open>
  \<^verbatim>\<open>sub in s\<close>: the string \<open>sub\<close> occurs in \<open>s\<close>.
\<close>

fun py_contains :: "string \<Rightarrow> string \<Rightarrow> bool" where
  "py_contains [] sub = (sub = [])"
| "py_contains (c # cs) sub = (py_startswith (c # cs) sub \<or> py_contains cs sub)"

text \<open>
  A string without a line end: neither \<^verbatim>\<open>'\n'\<close> nor \<^verbatim>\<open>'\r'\<close>, which both end a line
  when the file is read back.
\<close>

definition no_newline :: "string \<Rightarrow> bool" where
  "no_newline s = (LF \<notin> set s \<and> CR \<notin> set s)"

text \<open>
  A string that does not begin, or does not end, with a character that \<^verbatim>\<open>strip()\<close>
  removes.
\<close>

definition no_leading_space :: "string \<Rightarrow> bool" where
  "no_leading_space s = (s = [] \<or> \<not> py_isspace (hd s))"

definition no_trailing_space :: "string \<Rightarrow> bool" where
  "no_trailing_space s = (s = [] \<or> \<not> py_isspace (last s))"

text \<open>
  A category label that survives the round trip: no line end, no leading whitespace, and no
  occurrence of the marker \<^verbatim>\<open>,#genre#\<close> (the parser removes every occurrence).
\<close>

definition label_ok :: "string \<Rightarrow> bool" where
  "label_ok k = (no_newline k \<and> no_leading_space k \<and> \<not> py_contains k '',#genre#'')"

text \<open>
  A channel that survives the round trip: no line end in the name or in the URL, no comma
  in the name (the line is split at its first comma), no whitespace at the beginning of the
  name or at the end of the URL, and a line \<^verbatim>\<open><name>,<url>\<close> that does not end with the
  marker (it would be read as a marker line).
\<close>

definition channel_ok :: "channel \<Rightarrow> bool" where
  "channel_ok ch =
     (no_newline (name ch) \<and> no_newline (url ch)
      \<and> CHR '','' \<notin> set (name ch)
      \<and> no_leading_space (name ch) \<and> no_trailing_space (url ch)
      \<and> \<not> py_endswith (name ch @ '','' @ url ch) '',#genre#'')"

text \<open>
  A category that survives the round trip: its label and its channels do, and it is not
  empty.
\<close>

definition block_ok :: "string \<times> channel list \<Rightarrow> bool" where
  "block_ok item =
     (case item of (category, channel_list) \<Rightarrow>
        label_ok category \<and> channel_list \<noteq> [] \<and> list_all channel_ok channel_list)"

text \<open>
  A catalog that survives the round trip: its keys are distinct and all its categories
  survive.
\<close>

definition roundtrip_ok :: "catalog \<Rightarrow> bool" where
  "roundtrip_ok c = (wf_dict c \<and> list_all block_ok c)"

text \<open>
  The lines of the written file, without their line ends: a channel's line, and the lines
  of a block.
\<close>

definition channel_text :: "channel \<Rightarrow> string" where
  "channel_text ch = name ch @ '','' @ url ch"

definition block_lines :: "string \<times> channel list \<Rightarrow> string list" where
  "block_lines item =
     (case item of (category, channel_list) \<Rightarrow>
        (category @ '',#genre#'') # map channel_text channel_list)"

definition terminated :: "string list \<Rightarrow> string list" where
  "terminated ls = map (\<lambda>l. l @ [LF]) ls"

section \<open>Properties of the classifier\<close>

text \<open>
  What the matcher decides, in terms of the text: a literal pattern is found exactly in
  the strings that contain it, and \<open>+\<close> matches a non-empty run.
\<close>

lemma match_here_literal:
  "match_here (re_literal s @ r) t = (\<exists>rest. t = s @ rest \<and> match_here r rest)"
proof (induction s arbitrary: t)
  case Nil
  then show ?case by (simp add: re_literal_def)
next
  case (Cons a s)
  then show ?case by (cases t) (auto simp: re_literal_def)
qed

lemma match_here_plus:
  "match_here (Plus a # r) t =
     (\<exists>run rest. t = run @ rest \<and> run \<noteq> [] \<and> list_all (atom_matches a) run \<and> match_here r rest)"
proof (induction t)
  case Nil
  then show ?case by simp
next
  case (Cons c cs)
  show ?case
  proof
    assume "match_here (Plus a # r) (c # cs)"
    then have c: "atom_matches a c" and d: "match_here (Plus a # r) cs \<or> match_here r cs"
      by simp_all
    from d show "\<exists>run rest. c # cs = run @ rest \<and> run \<noteq> [] \<and> list_all (atom_matches a) run \<and> match_here r rest"
    proof
      assume "match_here (Plus a # r) cs"
      then obtain run rest where "cs = run @ rest" "list_all (atom_matches a) run" "match_here r rest"
        using Cons.IH by blast
      with c have "c # cs = (c # run) @ rest \<and> c # run \<noteq> [] \<and> list_all (atom_matches a) (c # run) \<and> match_here r rest"
        by simp
      then show ?thesis by blast
    next
      assume "match_here r cs"
      with c have "c # cs = [c] @ cs \<and> [c] \<noteq> [] \<and> list_all (atom_matches a) [c] \<and> match_here r cs"
        by simp
      then show ?thesis by blast
    qed
  next
    assume "\<exists>run rest. c # cs = run @ rest \<and> run \<noteq> [] \<and> list_all (atom_matches a) run \<and> match_here r rest"
    then obtain run rest where h: "c # cs = run @ rest" "run \<noteq> []" "list_all (atom_matches a) run" "match_here r rest"
      by blast
    then obtain run' where r: "run = c # run'" by (cases run) auto
    with h have cs: "cs = run' @ rest" and ca: "atom_matches a c" and la: "list_all (atom_matches a) run'"
      by simp_all
    show "match_here (Plus a # r) (c # cs)"
    proof (cases "run' = []")
      case True
      with cs h ca show ?thesis by simp
    next
      case False
      with cs la h have "match_here (Plus a # r) cs" using Cons.IH by blast
      with ca show ?thesis by simp
    qed
  qed
qed

lemma re_search_iff:
  "re_search r u = (\<exists>pre suf. u = pre @ suf \<and> match_here r suf)"
proof (induction u)
  case Nil
  then show ?case by simp
next
  case (Cons c cs)
  show ?case
  proof
    assume "re_search r (c # cs)"
    then have "match_here r (c # cs) \<or> re_search r cs" by simp
    then show "\<exists>pre suf. c # cs = pre @ suf \<and> match_here r suf"
    proof
      assume "match_here r (c # cs)"
      then have "c # cs = [] @ (c # cs) \<and> match_here r (c # cs)" by simp
      then show ?thesis by blast
    next
      assume "re_search r cs"
      then obtain pre suf where "cs = pre @ suf" "match_here r suf" using Cons.IH by blast
      then have "c # cs = (c # pre) @ suf \<and> match_here r suf" by simp
      then show ?thesis by blast
    qed
  next
    assume "\<exists>pre suf. c # cs = pre @ suf \<and> match_here r suf"
    then obtain pre suf where h: "c # cs = pre @ suf" "match_here r suf" by blast
    show "re_search r (c # cs)"
    proof (cases pre)
      case Nil
      with h have "match_here r (c # cs)" by simp
      then show ?thesis by simp
    next
      case (Cons p ps)
      with h have "cs = ps @ suf" by simp
      with h have "re_search r cs" using Cons.IH by blast
      then show ?thesis by simp
    qed
  qed
qed

lemma search_literal:
  "re_search (re_literal s) u = (\<exists>pre post. u = pre @ s @ post)"
proof -
  have "match_here (re_literal s) t = (\<exists>rest. t = s @ rest)" for t
    using match_here_literal [of s "[]" t] by simp
  then show ?thesis by (auto simp: re_search_iff)
qed

lemma search_bracket:
  "re_search [Once (Lit CHR ''[''), Plus (Cls hex_colon), Once (Lit CHR '']'')] u =
     (\<exists>pre run post. u = pre @ ''['' @ run @ '']'' @ post \<and> run \<noteq> [] \<and> set run \<subseteq> set hex_colon)"
  (is "?L = ?R")
proof
  assume ?L
  then obtain pre suf where u: "u = pre @ suf"
    and m: "match_here [Once (Lit CHR ''[''), Plus (Cls hex_colon), Once (Lit CHR '']'')] suf"
    unfolding re_search_iff by blast
  from m obtain t where suf: "suf = CHR ''['' # t"
    and m2: "match_here [Plus (Cls hex_colon), Once (Lit CHR '']'')] t"
    by (cases suf) auto
  from m2 obtain run rest where t: "t = run @ rest" and ne: "run \<noteq> []"
    and la: "list_all (atom_matches (Cls hex_colon)) run"
    and m3: "match_here [Once (Lit CHR '']'')] rest"
    unfolding match_here_plus by blast
  from m3 obtain post where rest: "rest = CHR '']'' # post" by (cases rest) auto
  from la have "set run \<subseteq> set hex_colon" by (auto simp: list_all_iff)
  with u suf t rest ne show ?R by auto
next
  assume ?R
  then obtain pre run post where u: "u = pre @ ''['' @ run @ '']'' @ post" and ne: "run \<noteq> []"
    and sub: "set run \<subseteq> set hex_colon" by blast
  from sub have la: "list_all (atom_matches (Cls hex_colon)) run" by (auto simp: list_all_iff)
  have "match_here [Once (Lit CHR '']'')] ('']'' @ post)" by simp
  with ne la have "match_here [Plus (Cls hex_colon), Once (Lit CHR '']'')] (run @ '']'' @ post)"
    unfolding match_here_plus by blast
  then have "match_here [Once (Lit CHR ''[''), Plus (Cls hex_colon), Once (Lit CHR '']'')] (''['' @ run @ '']'' @ post)"
    by simp
  with u show ?L unfolding re_search_iff by blast
qed

text \<open>
  The bracket expression of the first pattern accepts exactly the hex digits and the colon.
\<close>

lemma in_range_enum:
  "in_range lo hi c \<Longrightarrow> c \<in> set (map char_of [of_char lo ..< Suc (of_char hi :: nat)])"
proof -
  assume "in_range lo hi c"
  then have "(of_char lo :: nat) \<le> of_char c" and "(of_char c :: nat) < Suc (of_char hi)"
    unfolding in_range_def using le_imp_less_Suc by blast+
  then have "(of_char c :: nat) \<in> set [of_char lo ..< Suc (of_char hi)]"
    by (simp only: set_upt atLeastLessThan_iff)
  then have "char_of (of_char c :: nat) \<in> char_of ` set [of_char lo ..< Suc (of_char hi :: nat)]"
    by (rule imageI)
  then show ?thesis by (simp only: char_of_char set_map)
qed

lemma digits_enum: "map char_of [of_char CHR ''0'' ..< Suc (of_char CHR ''9'' :: nat)] = ''0123456789''"
  by code_simp

lemma lower_enum: "map char_of [of_char CHR ''a'' ..< Suc (of_char CHR ''f'' :: nat)] = ''abcdef''"
  by code_simp

lemma upper_enum: "map char_of [of_char CHR ''A'' ..< Suc (of_char CHR ''F'' :: nat)] = ''ABCDEF''"
  by code_simp

lemma hex_colon_class: "(c \<in> set hex_colon) = hex_digit_or_colon c"
proof
  have "list_all hex_digit_or_colon hex_colon"
    by (simp add: hex_colon_def hex_digit_or_colon_def in_range_def)
  moreover assume "c \<in> set hex_colon"
  ultimately show "hex_digit_or_colon c" by (simp add: list_all_iff)
next
  assume h: "hex_digit_or_colon c"
  then consider (digit) "in_range CHR ''0'' CHR ''9'' c" | (lower) "in_range CHR ''a'' CHR ''f'' c"
    | (upper) "in_range CHR ''A'' CHR ''F'' c" | (colon) "c = CHR '':''"
    unfolding hex_digit_or_colon_def by blast
  then show "c \<in> set hex_colon"
  proof cases
    case digit
    then have "c \<in> set ''0123456789''" using in_range_enum digits_enum by metis
    then show ?thesis unfolding hex_colon_def by auto
  next
    case lower
    then have "c \<in> set ''abcdef''" using in_range_enum lower_enum by metis
    then show ?thesis unfolding hex_colon_def by auto
  next
    case upper
    then have "c \<in> set ''ABCDEF''" using in_range_enum upper_enum by metis
    then show ?thesis unfolding hex_colon_def by auto
  next
    case colon
    then show ?thesis unfolding hex_colon_def by simp
  qed
qed

lemma runs_hex_colon: "(set run \<subseteq> set hex_colon) = list_all hex_digit_or_colon run"
  by (auto simp: list_all_iff hex_colon_class)

text \<open>
  Claim C4. For every URL string, the empty one included, \<open>is_ipv6_url\<close> is true exactly
  when the URL contains a non-empty run of hex digits and colons enclosed in square
  brackets, or one of the substrings \<^verbatim>\<open>2409:8087:\<close>, \<^verbatim>\<open>2001:\<close>, \<^verbatim>\<open>::1\<close>,
  \<^verbatim>\<open>fe80:\<close>. The function is total: it returns a truth value on every string and has no
  failing branch. It is true on \<^verbatim>\<open>http://[2409:8087:1001::5]/live\<close> and on
  \<^verbatim>\<open>http://example.com/2001:path\<close>, false on \<^verbatim>\<open>http://192.168.1.1:8080/live\<close> and
  on the empty string. The bracket rule alone decides \<^verbatim>\<open>http://[240e:1::5]/live\<close> and
  \<^verbatim>\<open>http://[FE8A::2]/live\<close> (true, with lower and upper case digits), and it refuses an
  empty run, a run with a letter that is no hex digit and a run that is not closed:
  \<^verbatim>\<open>http://[]/live\<close>, \<^verbatim>\<open>http://[12:gh]/live\<close>, \<^verbatim>\<open>http://[12:34/live\<close>.
\<close>

theorem is_ipv6_url_rules:
  "is_ipv6_url u =
      ((\<exists>pre run post. u = pre @ ''['' @ run @ '']'' @ post \<and> run \<noteq> []
           \<and> list_all hex_digit_or_colon run)
       \<or> (\<exists>pre post. u = pre @ ''2409:8087:'' @ post)
       \<or> (\<exists>pre post. u = pre @ ''2001:'' @ post)
       \<or> (\<exists>pre post. u = pre @ ''::1'' @ post)
       \<or> (\<exists>pre post. u = pre @ ''fe80:'' @ post))
   \<and> is_ipv6_url ''http://[2409:8087:1001::5]/live'' = True
   \<and> is_ipv6_url ''http://192.168.1.1:8080/live'' = False
   \<and> is_ipv6_url ''http://example.com/2001:path'' = True
   \<and> is_ipv6_url '''' = False
   \<and> is_ipv6_url ''http://[240e:1::5]/live'' = True
   \<and> is_ipv6_url ''http://[FE8A::2]/live'' = True
   \<and> is_ipv6_url ''http://[]/live'' = False
   \<and> is_ipv6_url ''http://[12:gh]/live'' = False
   \<and> is_ipv6_url ''http://[12:34/live'' = False"
proof -
  have a: "is_ipv6_url u =
      ((\<exists>pre run post. u = pre @ ''['' @ run @ '']'' @ post \<and> run \<noteq> []
           \<and> list_all hex_digit_or_colon run)
       \<or> (\<exists>pre post. u = pre @ ''2409:8087:'' @ post)
       \<or> (\<exists>pre post. u = pre @ ''2001:'' @ post)
       \<or> (\<exists>pre post. u = pre @ ''::1'' @ post)
       \<or> (\<exists>pre post. u = pre @ ''fe80:'' @ post))"
    unfolding is_ipv6_url_def ipv6_patterns_def
    by (simp only: search_any.simps search_literal search_bracket runs_hex_colon
          if_True if_False split: if_splits) blast
  have b: "is_ipv6_url ''http://[2409:8087:1001::5]/live'' = True" by code_simp
  have c: "is_ipv6_url ''http://192.168.1.1:8080/live'' = False" by code_simp
  have d: "is_ipv6_url ''http://example.com/2001:path'' = True" by code_simp
  have e: "is_ipv6_url '''' = False" by code_simp
  have f: "is_ipv6_url ''http://[240e:1::5]/live'' = True" by code_simp
  have g: "is_ipv6_url ''http://[FE8A::2]/live'' = True" by code_simp
  have h: "is_ipv6_url ''http://[]/live'' = False" by code_simp
  have i: "is_ipv6_url ''http://[12:gh]/live'' = False" by code_simp
  have j: "is_ipv6_url ''http://[12:34/live'' = False" by code_simp
  from a b c d e f g h i j show ?thesis by blast
qed

section \<open>Properties of the run\<close>

text \<open>A catalog in which no channel passes the predicate is filtered to the empty catalog.\<close>

lemma filter_category_none:
  "\<forall>ch\<in>set chs. \<not> is_ipv6_url (url ch) \<Longrightarrow> filter_category acc (k, chs) = acc"
  unfolding filter_category_def by (induction chs arbitrary: acc) simp_all

lemma foldl_filter_category_none:
  "\<forall>(k, chs)\<in>set c. \<forall>ch\<in>set chs. \<not> is_ipv6_url (url ch) \<Longrightarrow> foldl filter_category acc c = acc"
proof (induction c arbitrary: acc)
  case Nil
  then show ?case by simp
next
  case (Cons item c)
  obtain k chs where item: "item = (k, chs)" by (cases item)
  with Cons.prems have "\<forall>ch\<in>set chs. \<not> is_ipv6_url (url ch)" by simp
  then have "filter_category acc item = acc" using item filter_category_none by simp
  moreover from Cons.prems have "\<forall>(k, chs)\<in>set c. \<forall>ch\<in>set chs. \<not> is_ipv6_url (url ch)" by simp
  ultimately show ?case using Cons.IH by simp
qed

lemma filter_ipv6_channels_none:
  "\<forall>(k, chs)\<in>set c. \<forall>ch\<in>set chs. \<not> is_ipv6_url (url ch) \<Longrightarrow> filter_ipv6_channels c = []"
  unfolding filter_ipv6_channels_def by (rule foldl_filter_category_none)

text \<open>
  Claim C7. If the input file does not exist, \<open>read_result_file\<close> returns the empty
  catalog and prints a notice, and \<open>main\<close> returns after printing its own notice, the
  files unchanged. If the file exists and parses to the empty catalog, \<open>main\<close> returns
  early with the files unchanged. If the parsed catalog is not empty and none of its
  channels passes \<open>is_ipv6_url\<close>, \<open>main\<close> returns early after the notice
  \<^verbatim>\<open>No IPv6 channels found\<close>, the files unchanged: no output file is written.
\<close>

theorem main_early_return:
  "(files w result_file = None \<longrightarrow>
      read_result_file result_file w
        = ([], w\<lparr>console := console w @ [''Result file not found: output/result.txt'']\<rparr>)
      \<and> main w = w\<lparr>console := console w @
           [''Reading result file...'', ''Result file not found: output/result.txt'',
            ''No channels found in result file'']\<rparr>)
   \<and> (files w result_file = Some text \<and> parse_lines (file_lines text) = [] \<longrightarrow>
        main w = w\<lparr>console := console w @
           [''Reading result file...'', ''No channels found in result file'']\<rparr>)
   \<and> (files w result_file = Some text \<and> parse_lines (file_lines text) \<noteq> []
        \<and> (\<forall>(k, chs)\<in>set (parse_lines (file_lines text)). \<forall>ch\<in>set chs. \<not> is_ipv6_url (url ch)) \<longrightarrow>
        files (main w) = files w \<and> last (console (main w)) = ''No IPv6 channels found'')"
proof (intro conjI impI)
  assume h: "files w result_file = None"
  show "read_result_file result_file w
        = ([], w\<lparr>console := console w @ [''Result file not found: output/result.txt'']\<rparr>)"
    using h by (simp add: read_result_file_def print_def result_file_def)
  show "main w = w\<lparr>console := console w @
           [''Reading result file...'', ''Result file not found: output/result.txt'',
            ''No channels found in result file'']\<rparr>"
    using h by (simp add: main_def read_result_file_def print_def result_file_def)
next
  assume h: "files w result_file = Some text \<and> parse_lines (file_lines text) = []"
  then show "main w = w\<lparr>console := console w @
           [''Reading result file...'', ''No channels found in result file'']\<rparr>"
    by (simp add: main_def read_result_file_def print_def)
next
  assume h: "files w result_file = Some text \<and> parse_lines (file_lines text) \<noteq> []
        \<and> (\<forall>(k, chs)\<in>set (parse_lines (file_lines text)). \<forall>ch\<in>set chs. \<not> is_ipv6_url (url ch))"
  then have f: "filter_ipv6_channels (parse_lines (file_lines text)) = []"
    using filter_ipv6_channels_none by blast
  with h show "files (main w) = files w"
    by (simp add: main_def read_result_file_def print_def Let_def)
  from h f show "last (console (main w)) = ''No IPv6 channels found''"
    by (simp add: main_def read_result_file_def print_def Let_def)
qed

theorem main_early_return_witness:
  "main \<lparr>files = Map.empty, console = []\<rparr>
     = \<lparr>files = Map.empty, console =
           [''Reading result file...'', ''Result file not found: output/result.txt'',
            ''No channels found in result file'']\<rparr>
   \<and> main \<lparr>files = [result_file \<mapsto> ''no comma here''], console = []\<rparr>
     = \<lparr>files = [result_file \<mapsto> ''no comma here''], console =
           [''Reading result file...'', ''No channels found in result file'']\<rparr>
   \<and> files (main \<lparr>files = [result_file \<mapsto> ''News,#genre#'' @ [LF] @ ''CCTV1,http://192.168.1.1/live'' @ [LF]], console = []\<rparr>)
     = [result_file \<mapsto> ''News,#genre#'' @ [LF] @ ''CCTV1,http://192.168.1.1/live'' @ [LF]]"
proof -
  let ?t2 = "''no comma here''"
  let ?t3 = "''News,#genre#'' @ [LF] @ ''CCTV1,http://192.168.1.1/live'' @ [LF]"
  have p2: "parse_lines (file_lines ?t2) = []" by code_simp
  have p3: "parse_lines (file_lines ?t3) = [(''News'', [\<lparr>name = ''CCTV1'', url = ''http://192.168.1.1/live''\<rparr>])]"
    by code_simp
  have n3: "\<not> is_ipv6_url ''http://192.168.1.1/live''" by code_simp
  have a: "main \<lparr>files = Map.empty, console = []\<rparr>
     = \<lparr>files = Map.empty, console =
           [''Reading result file...'', ''Result file not found: output/result.txt'',
            ''No channels found in result file'']\<rparr>"
    using main_early_return [of "\<lparr>files = Map.empty, console = []\<rparr>" "[]"] by simp
  have b: "main \<lparr>files = [result_file \<mapsto> ?t2], console = []\<rparr>
     = \<lparr>files = [result_file \<mapsto> ?t2], console =
           [''Reading result file...'', ''No channels found in result file'']\<rparr>"
    using main_early_return [of "\<lparr>files = [result_file \<mapsto> ?t2], console = []\<rparr>" ?t2] p2 by simp
  have c: "files (main \<lparr>files = [result_file \<mapsto> ?t3], console = []\<rparr>) = [result_file \<mapsto> ?t3]"
    using main_early_return [of "\<lparr>files = [result_file \<mapsto> ?t3], console = []\<rparr>" ?t3] p3 n3 by simp
  from a b c show ?thesis by blast
qed

section \<open>Properties of the parser\<close>

text \<open>
  Claim C2, evaluated on the line \<^verbatim>\<open>News,#genre#HD,#genre#\<close>. The line ends with the
  marker, so it starts a new category and adds no channel; the category's name is the line
  with every occurrence of the marker removed, \<^verbatim>\<open>NewsHD\<close>, not the line without its
  trailing marker, \<^verbatim>\<open>News,#genre#HD\<close>.
\<close>

theorem marker_replace_all:
  "parse_line (channels, current_category) ''News,#genre#HD,#genre#'' = (channels, ''NewsHD'')"
  by (simp add: parse_line_def py_strip_def py_isspace_def py_endswith_def py_replace_def py_startswith_def)

section \<open>Properties of the deduplicator\<close>

lemma dict_set_new: "k \<notin> fst ` set d \<Longrightarrow> dict_set k v d = d @ [(k, v)]"
  by (induction d) auto

lemma dict_set_old:
  "distinct (map fst d) \<Longrightarrow> k \<in> fst ` set d \<Longrightarrow>
   dict_set k v d = map (\<lambda>(k', v'). if k' = k then (k', v) else (k', v')) d"
proof (induction d)
  case Nil
  then show ?case by simp
next
  case (Cons p d)
  obtain k' v' where p: "p = (k', v')" by (cases p)
  show ?case
  proof (cases "k' = k")
    case True
    with Cons.prems p have "k \<notin> fst ` set d" by auto
    then have "map (\<lambda>(k', v'). if k' = k then (k', v) else (k', v')) d = d"
      by (induction d) auto
    with True p show ?thesis by simp
  next
    case False
    with Cons p show ?thesis by auto
  qed
qed

lemma keep_best_new:
  "name c \<notin> fst ` set seen \<Longrightarrow> keep_best seen c = seen @ [(name c, c)]"
proof -
  assume h: "name c \<notin> fst ` set seen"
  then have "map_of seen (name c) = None" by (simp add: map_of_eq_None_iff)
  with h show ?thesis by (simp add: keep_best_def dict_set_new)
qed

lemma keep_best_old:
  assumes "seen_ok seen" and "name c \<in> fst ` set seen"
  shows "keep_best seen c = map (\<lambda>(n, ch). if n = name c then (n, better ch c) else (n, ch)) seen"
proof -
  from assms(2) have "map_of seen (name c) \<noteq> None" by (simp add: map_of_eq_None_iff)
  then obtain e where e: "map_of seen (name c) = Some e" by auto
  from assms(1) have d: "distinct (map fst seen)" by (simp add: seen_ok_def)
  have m: "\<And>n ch. (n, ch) \<in> set seen \<Longrightarrow> n = name c \<Longrightarrow> ch = e"
    using d e by (simp add: map_of_is_SomeI)
  show ?thesis
  proof (cases "length (url c) < length (url e)")
    case True
    then have "keep_best seen c = dict_set (name c) c seen" using e by (simp add: keep_best_def)
    also have "\<dots> = map (\<lambda>(k', v'). if k' = name c then (k', c) else (k', v')) seen"
      using d assms(2) by (rule dict_set_old)
    also have "\<dots> = map (\<lambda>(n, ch). if n = name c then (n, better ch c) else (n, ch)) seen"
      using m True by (auto simp: better_def)
    finally show ?thesis .
  next
    case False
    then have "keep_best seen c = seen" using e by (simp add: keep_best_def)
    also have "seen = map (\<lambda>(n, ch). if n = name c then (n, better ch c) else (n, ch)) seen"
    proof -
      have "(case p of (n, ch) \<Rightarrow> if n = name c then (n, better ch c) else (n, ch)) = p"
        if "p \<in> set seen" for p
      proof -
        obtain n ch where p: "p = (n, ch)" by (cases p)
        show ?thesis
        proof (cases "n = name c")
          case True
          with that p have "ch = e" using m by blast
          with False True p show ?thesis by (simp add: better_def)
        next
          case False
          with p show ?thesis by simp
        qed
      qed
      then show ?thesis by (simp add: map_idI)
    qed
    finally show ?thesis .
  qed
qed

lemma name_better: "name b = name c \<Longrightarrow> name (better b c) = name c"
  by (simp add: better_def)

lemma name_foldl_better:
  "\<forall>d\<in>set ds. name d = n \<Longrightarrow> name c = n \<Longrightarrow> name (foldl better c ds) = n"
  by (induction ds arbitrary: c) (simp_all add: better_def)

lemma map_fst_update:
  "map fst (map (\<lambda>(n, ch). if n = k then (n, g ch) else (n, ch)) seen) = map fst seen"
  by (induction seen) auto

lemma keep_best_ok: "seen_ok seen \<Longrightarrow> seen_ok (keep_best seen c)"
proof (cases "name c \<in> fst ` set seen")
  case True
  assume ok: "seen_ok seen"
  have k: "map fst (map (\<lambda>(n, ch). if n = name c then (n, better ch c) else (n, ch)) seen) = map fst seen"
    by (rule map_fst_update)
  have "list_all (\<lambda>(n, ch). name ch = n) seen" using ok by (simp add: seen_ok_def)
  then have nm: "\<And>n ch. (n, ch) \<in> set seen \<Longrightarrow> name ch = n"
    by (auto simp: list_all_iff)
  have "(case (case p of (n, ch) \<Rightarrow> if n = name c then (n, better ch c) else (n, ch)) of
          (n, ch) \<Rightarrow> name ch = n)" if "p \<in> set seen" for p
  proof -
    obtain n ch where p: "p = (n, ch)" by (cases p)
    with that have "name ch = n" using nm by blast
    then show ?thesis unfolding p by (simp add: better_def)
  qed
  then have l: "list_all (\<lambda>(n, ch). name ch = n) (map (\<lambda>(n, ch). if n = name c then (n, better ch c) else (n, ch)) seen)"
    by (simp add: list_all_iff)
  have d: "distinct (map fst (map (\<lambda>(n, ch). if n = name c then (n, better ch c) else (n, ch)) seen))"
    unfolding k using ok by (simp add: seen_ok_def)
  show ?thesis unfolding keep_best_old [OF ok True] seen_ok_def using d l by blast
next
  case False
  assume ok: "seen_ok seen"
  with False show ?thesis unfolding keep_best_new [OF False] seen_ok_def by auto
qed

lemma foldl_keep_best:
  "seen_ok seen \<Longrightarrow>
   foldl keep_best seen l =
     map (\<lambda>(n, ch). (n, foldl better ch (filter (\<lambda>d. name d = n) l))) seen
     @ map (\<lambda>c. (name c, c)) (spec_dedup (filter (\<lambda>d. name d \<notin> fst ` set seen) l))"
proof (induction l arbitrary: seen)
  case Nil
  then show ?case by (simp add: case_prod_unfold)
next
  case (Cons c cs)
  show ?case
  proof (cases "name c \<in> fst ` set seen")
    case True
    let ?seen' = "map (\<lambda>(n, ch). if n = name c then (n, better ch c) else (n, ch)) seen"
    have kb: "keep_best seen c = ?seen'" using Cons.prems True by (rule keep_best_old)
    have ok': "seen_ok ?seen'" using keep_best_ok [OF Cons.prems, of c] kb by simp
    have "set (map fst ?seen') = set (map fst seen)" by (simp only: map_fst_update)
    then have keys: "fst ` set ?seen' = fst ` set seen" by (simp only: set_map)
    have "foldl keep_best seen (c # cs) = foldl keep_best ?seen' cs" using kb by simp
    also have "\<dots> = map (\<lambda>(n, ch). (n, foldl better ch (filter (\<lambda>d. name d = n) cs))) ?seen'
       @ map (\<lambda>c. (name c, c)) (spec_dedup (filter (\<lambda>d. name d \<notin> fst ` set ?seen') cs))"
      using ok' by (rule Cons.IH)
    also have "map (\<lambda>(n, ch). (n, foldl better ch (filter (\<lambda>d. name d = n) cs))) ?seen'
        = map (\<lambda>(n, ch). (n, foldl better ch (filter (\<lambda>d. name d = n) (c # cs)))) seen"
      by (induction seen) auto
    also have "filter (\<lambda>d. name d \<notin> fst ` set ?seen') cs = filter (\<lambda>d. name d \<notin> fst ` set seen) (c # cs)"
      using True keys by simp
    finally show ?thesis .
  next
    case False
    let ?seen' = "seen @ [(name c, c)]"
    have kb: "keep_best seen c = ?seen'" using False by (rule keep_best_new)
    have ok': "seen_ok ?seen'" using keep_best_ok [OF Cons.prems, of c] kb by simp
    have f1: "filter (\<lambda>d. name d = name c) (filter (\<lambda>d. name d \<notin> fst ` set seen) cs)
              = filter (\<lambda>d. name d = name c) cs"
      using False by (induction cs) auto
    have f2: "filter (\<lambda>d. name d \<noteq> name c) (filter (\<lambda>d. name d \<notin> fst ` set seen) cs)
              = filter (\<lambda>d. name d \<notin> fst ` set ?seen') cs"
      by (induction cs) auto
    have f3: "map (\<lambda>(n, ch). (n, foldl better ch (filter (\<lambda>d. name d = n) (c # cs)))) seen
              = map (\<lambda>(n, ch). (n, foldl better ch (filter (\<lambda>d. name d = n) cs))) seen"
      using False by (induction seen) auto
    have "foldl keep_best seen (c # cs) = foldl keep_best ?seen' cs" using kb by simp
    also have "\<dots> = map (\<lambda>(n, ch). (n, foldl better ch (filter (\<lambda>d. name d = n) cs))) ?seen'
       @ map (\<lambda>c. (name c, c)) (spec_dedup (filter (\<lambda>d. name d \<notin> fst ` set ?seen') cs))"
      using ok' by (rule Cons.IH)
    finally have e: "foldl keep_best seen (c # cs) =
        map (\<lambda>(n, ch). (n, foldl better ch (filter (\<lambda>d. name d = n) cs))) ?seen'
        @ map (\<lambda>c. (name c, c)) (spec_dedup (filter (\<lambda>d. name d \<notin> fst ` set ?seen') cs))" .
    have nm: "name (foldl better c (filter (\<lambda>d. name d = name c) cs)) = name c"
      by (rule name_foldl_better) simp_all
    have "filter (\<lambda>d. name d \<notin> fst ` set seen) (c # cs) = c # filter (\<lambda>d. name d \<notin> fst ` set seen) cs"
      using False by simp
    then have "spec_dedup (filter (\<lambda>d. name d \<notin> fst ` set seen) (c # cs))
        = foldl better c (filter (\<lambda>d. name d = name c) cs)
          # spec_dedup (filter (\<lambda>d. name d \<notin> fst ` set ?seen') cs)"
      using f1 f2 by simp
    then show ?thesis unfolding e f3 using nm by simp
  qed
qed

lemma dedup_list_spec: "dedup_list l = spec_dedup l"
proof -
  have "seen_ok []" by (simp add: seen_ok_def)
  then have "foldl keep_best [] l = map (\<lambda>c. (name c, c)) (spec_dedup l)"
    using foldl_keep_best [of "[]" l] by simp
  then show ?thesis by (simp add: dedup_list_def comp_def)
qed

lemma set_first_occurrences: "set (first_occurrences xs) = set xs"
  by (induction xs rule: first_occurrences.induct) auto

lemma distinct_first_occurrences: "distinct (first_occurrences xs)"
  by (induction xs rule: first_occurrences.induct) (auto simp: set_first_occurrences)

lemma names_spec_dedup: "map name (spec_dedup l) = first_occurrences (map name l)"
proof (induction l rule: spec_dedup.induct)
  case 1
  then show ?case by simp
next
  case (2 c cs)
  have n: "name (foldl better c (filter (\<lambda>d. name d = name c) cs)) = name c"
    by (rule name_foldl_better) simp_all
  have f: "filter (\<lambda>y. y \<noteq> name c) (map name cs) = map name (filter (\<lambda>d. name d \<noteq> name c) cs)"
    by (simp add: filter_map comp_def)
  show ?case using 2 n f by simp
qed

lemma spec_dedup_distinct_id: "distinct (map name l) \<Longrightarrow> spec_dedup l = l"
proof (induction l)
  case Nil
  then show ?case by simp
next
  case (Cons c cs)
  then have "name c \<notin> set (map name cs)" by simp
  have notin: "\<forall>d\<in>set cs. name d \<noteq> name c"
  proof
    fix d assume "d \<in> set cs"
    then have "name d \<in> set (map name cs)" by simp
    with \<open>name c \<notin> set (map name cs)\<close> show "name d \<noteq> name c" by auto
  qed
  then have f1: "filter (\<lambda>d. name d = name c) cs = []" by (simp add: filter_empty_conv)
  from notin have f2: "filter (\<lambda>d. name d \<noteq> name c) cs = cs" by (simp add: filter_id_conv)
  from Cons have "spec_dedup cs = cs" by simp
  with f1 f2 show ?case by simp
qed

lemma dedup_list_idem: "dedup_list (dedup_list l) = dedup_list l"
proof -
  have "distinct (map name (spec_dedup l))"
    by (simp add: names_spec_dedup distinct_first_occurrences)
  then show ?thesis by (simp add: dedup_list_spec spec_dedup_distinct_id)
qed

lemma remove_duplicates_foldl:
  "remove_duplicates_keep_best c = foldl dedup_step [] c"
  by (simp add: remove_duplicates_keep_best_def)

lemma foldl_dedup_step_wf:
  "distinct (map fst acc @ map fst c) \<Longrightarrow>
   foldl dedup_step acc c = acc @ map (\<lambda>(k, l). (k, dedup_list l)) c"
proof (induction c arbitrary: acc)
  case Nil
  then show ?case by simp
next
  case (Cons item c)
  obtain k l where item: "item = (k, l)" by (cases item)
  from Cons.prems item have notin: "k \<notin> fst ` set acc" by auto
  then have step: "dedup_step acc item = acc @ [(k, dedup_list l)]"
    by (simp add: dedup_step_def item dict_set_new)
  from Cons.prems item have "distinct (map fst (acc @ [(k, dedup_list l)]) @ map fst c)" by auto
  then have "foldl dedup_step (acc @ [(k, dedup_list l)]) c
      = (acc @ [(k, dedup_list l)]) @ map (\<lambda>(k, l). (k, dedup_list l)) c"
    by (rule Cons.IH)
  with step item show ?case by simp
qed

lemma remove_duplicates_wf:
  "wf_dict c \<Longrightarrow> remove_duplicates_keep_best c = map (\<lambda>(k, l). (k, dedup_list l)) c"
  using foldl_dedup_step_wf [of "[]" c] by (simp add: remove_duplicates_foldl wf_dict_def)

lemma keys_dict_set:
  "map fst (dict_set k v d) = (if k \<in> fst ` set d then map fst d else map fst d @ [k])"
proof (induction d)
  case Nil
  then show ?case by simp
next
  case (Cons p d)
  obtain k' v' where p: "p = (k', v')" by (cases p)
  show ?case
  proof (cases "k' = k")
    case True
    with p show ?thesis by simp
  next
    case False
    with p Cons show ?thesis by simp
  qed
qed

lemma values_dict_set: "(k', v') \<in> set (dict_set k v d) \<Longrightarrow> (k', v') = (k, v) \<or> (k', v') \<in> set d"
  by (induction d) (auto split: if_splits)

lemma dedup_step_deduped: "deduped acc \<Longrightarrow> deduped (dedup_step acc item)"
proof -
  assume a: "deduped acc"
  obtain k l where item: "item = (k, l)" by (cases item)
  have d: "distinct (map fst (dict_set k (dedup_list l) acc))"
    using a by (auto simp: keys_dict_set deduped_def)
  have "dedup_list l' = l'" if "(k', l') \<in> set (dict_set k (dedup_list l) acc)" for k' l'
  proof -
    from that have "(k', l') = (k, dedup_list l) \<or> (k', l') \<in> set acc" by (rule values_dict_set)
    then show ?thesis
    proof
      assume "(k', l') = (k, dedup_list l)"
      then show ?thesis by (simp add: dedup_list_idem)
    next
      assume "(k', l') \<in> set acc"
      with a show ?thesis by (auto simp: deduped_def list_all_iff)
    qed
  qed
  then have "list_all (\<lambda>(k, l). dedup_list l = l) (dict_set k (dedup_list l) acc)"
    by (auto simp: list_all_iff)
  with d show ?thesis by (simp add: deduped_def dedup_step_def item)
qed

lemma foldl_dedup_step_deduped: "deduped acc \<Longrightarrow> deduped (foldl dedup_step acc c)"
  by (induction c arbitrary: acc) (simp_all add: dedup_step_deduped)

lemma remove_duplicates_deduped: "deduped (remove_duplicates_keep_best c)"
  using foldl_dedup_step_deduped [of "[]" c] by (simp add: remove_duplicates_foldl deduped_def)

text \<open>
  Claim C3. For every category, \<open>dedup_list\<close> (the inner loop of
  \<^verbatim>\<open>remove_duplicates_keep_best\<close>) equals \<open>spec_dedup\<close>: one channel per name, the first
  occurrence recorded and replaced by a later occurrence exactly when its URL is strictly
  shorter, in the order of the names' first occurrences; the names of the result are distinct.
  On a catalog with distinct keys the deduplicator does this to every category, keeping the
  categories and their order. Of the two channels \<^verbatim>\<open>CCTV1\<close> with URLs
  \<^verbatim>\<open>http://a.com/longpath/stream\<close> and \<^verbatim>\<open>http://b.co/s\<close> the second is kept; of two
  with URLs of equal length the first is kept.
\<close>

theorem dedup_keeps_best:
  "dedup_list l = spec_dedup l
   \<and> map name (dedup_list l) = first_occurrences (map name l)
   \<and> distinct (map name (dedup_list l))
   \<and> (wf_dict c \<longrightarrow>
        remove_duplicates_keep_best c = map (\<lambda>(category, chs). (category, spec_dedup chs)) c)
   \<and> dedup_list [\<lparr>name = ''CCTV1'', url = ''http://a.com/longpath/stream''\<rparr>,
                  \<lparr>name = ''CCTV1'', url = ''http://b.co/s''\<rparr>]
       = [\<lparr>name = ''CCTV1'', url = ''http://b.co/s''\<rparr>]
   \<and> dedup_list [\<lparr>name = ''CCTV1'', url = ''http://a.co/s''\<rparr>,
                  \<lparr>name = ''CCTV1'', url = ''http://b.co/s''\<rparr>]
       = [\<lparr>name = ''CCTV1'', url = ''http://a.co/s''\<rparr>]"
proof -
  have a: "dedup_list l = spec_dedup l" by (rule dedup_list_spec)
  have b: "map name (dedup_list l) = first_occurrences (map name l)"
    by (simp add: dedup_list_spec names_spec_dedup)
  have c: "distinct (map name (dedup_list l))"
    by (simp add: b distinct_first_occurrences)
  have d: "wf_dict c \<longrightarrow>
        remove_duplicates_keep_best c = map (\<lambda>(category, chs). (category, spec_dedup chs)) c"
    by (simp add: remove_duplicates_wf dedup_list_spec)
  have e: "dedup_list [\<lparr>name = ''CCTV1'', url = ''http://a.com/longpath/stream''\<rparr>,
                  \<lparr>name = ''CCTV1'', url = ''http://b.co/s''\<rparr>]
       = [\<lparr>name = ''CCTV1'', url = ''http://b.co/s''\<rparr>]"
    by (simp add: dedup_list_def keep_best_def)
  have f: "dedup_list [\<lparr>name = ''CCTV1'', url = ''http://a.co/s''\<rparr>,
                  \<lparr>name = ''CCTV1'', url = ''http://b.co/s''\<rparr>]
       = [\<lparr>name = ''CCTV1'', url = ''http://a.co/s''\<rparr>]"
    by (simp add: dedup_list_def keep_best_def)
  from a b c d e f show ?thesis by blast
qed

text \<open>
  The theorem at a catalog with two categories, one of them empty.
\<close>

theorem dedup_keeps_best_witness:
  "remove_duplicates_keep_best
     [(''News'', [\<lparr>name = ''A'', url = ''http://[::1]/long''\<rparr>,
                  \<lparr>name = ''B'', url = ''http://[::1]/b''\<rparr>,
                  \<lparr>name = ''A'', url = ''http://[::1]/s''\<rparr>]),
      (''Sports'', [])]
   = [(''News'', [\<lparr>name = ''A'', url = ''http://[::1]/s''\<rparr>,
                  \<lparr>name = ''B'', url = ''http://[::1]/b''\<rparr>]),
      (''Sports'', [])]"
proof -
  let ?c = "[(''News'', [\<lparr>name = ''A'', url = ''http://[::1]/long''\<rparr>,
                  \<lparr>name = ''B'', url = ''http://[::1]/b''\<rparr>,
                  \<lparr>name = ''A'', url = ''http://[::1]/s''\<rparr>]),
      (''Sports'', [])]"
  have w: "wf_dict ?c" by (simp add: wf_dict_def)
  show ?thesis using dedup_keeps_best [of "[]" ?c] w by (simp add: better_def)
qed

text \<open>
  Claim C8. The deduplicator is idempotent on every catalog.
\<close>

theorem dedup_idempotent:
  "remove_duplicates_keep_best (remove_duplicates_keep_best c) = remove_duplicates_keep_best c"
proof -
  let ?d = "remove_duplicates_keep_best c"
  have dd: "deduped ?d" by (rule remove_duplicates_deduped)
  then have "wf_dict ?d" by (simp add: deduped_def wf_dict_def)
  then have "remove_duplicates_keep_best ?d = map (\<lambda>(k, l). (k, dedup_list l)) ?d"
    by (rule remove_duplicates_wf)
  also have "\<dots> = ?d"
  proof (rule map_idI)
    fix p assume "p \<in> set ?d"
    with dd show "(case p of (k, l) \<Rightarrow> (k, dedup_list l)) = p"
      by (auto simp: deduped_def list_all_iff)
  qed
  finally show ?thesis .
qed

section \<open>Properties of the serializer\<close>

lemma foldl_write_channel: "foldl write_channel f chs = f @ concat (map channel_line chs)"
  by (induction chs arbitrary: f) (simp_all add: write_channel_def channel_line_def)

lemma write_category_empty: "write_category (f, first) (k, []) = (f, first)"
  by (simp add: write_category_def)

lemma write_category_block:
  "chs \<noteq> [] \<Longrightarrow>
   write_category (f, first) (k, chs)
     = ((if first then f else f @ [LF]) @ category_block (k, chs), False)"
  by (simp add: write_category_def category_block_def foldl_write_channel Let_def)

lemma join_blocks_Cons: "bs \<noteq> [] \<Longrightarrow> join_blocks (b # bs) = b @ [LF] @ join_blocks bs"
  by (cases bs) simp_all

lemma foldl_write_category:
  "foldl write_category (f, first) c
     = (if emitted c = [] then (f, first)
        else ((if first then f else f @ [LF])
                @ join_blocks (map category_block (emitted c)), False))"
proof (induction c arbitrary: f first)
  case Nil
  then show ?case by (simp add: emitted_def)
next
  case (Cons item c)
  obtain k chs where item: "item = (k, chs)" by (cases item)
  show ?case
  proof (cases "chs = []")
    case True
    then have "emitted (item # c) = emitted c" by (simp add: emitted_def item)
    moreover have "write_category (f, first) item = (f, first)"
      using True item by (simp add: write_category_empty)
    ultimately show ?thesis using Cons.IH [of f first] by simp
  next
    case False
    then have e: "emitted (item # c) = item # emitted c" by (simp add: emitted_def item)
    have w: "write_category (f, first) item
        = ((if first then f else f @ [LF]) @ category_block item, False)"
      using False item by (simp add: write_category_block)
    show ?thesis
    proof (cases "emitted c = []")
      case True
      then show ?thesis using e w Cons.IH [of "(if first then f else f @ [LF]) @ category_block item" False]
        by simp
    next
      case False
      then have "map category_block (emitted c) \<noteq> []" by simp
      then have j: "join_blocks (category_block item # map category_block (emitted c))
          = category_block item @ [LF] @ join_blocks (map category_block (emitted c))"
        by (rule join_blocks_Cons)
      show ?thesis using False e w j
          Cons.IH [of "(if first then f else f @ [LF]) @ category_block item" False]
        by simp
    qed
  qed
qed

lemma written_text_spec: "written_text c = spec_text c"
  by (simp add: written_text_def spec_text_def foldl_write_category)

lemma join_blocks_last: "bs \<noteq> [] \<Longrightarrow> \<exists>pre. join_blocks bs = pre @ last bs"
proof (induction bs rule: join_blocks.induct)
  case 1
  then show ?case by simp
next
  case (2 b)
  then show ?case by simp
next
  case (3 b b' bs)
  then obtain pre where "join_blocks (b' # bs) = pre @ last (b' # bs)" by auto
  then have "join_blocks (b # b' # bs) = (b @ [LF] @ pre) @ last (b # b' # bs)" by simp
  then show ?case by blast
qed

lemma concat_map_snoc: "concat (map g (xs @ [x])) = concat (map g xs) @ g x"
  by simp

lemma category_block_last:
  "chs \<noteq> [] \<Longrightarrow> \<exists>pre. category_block (k, chs) = pre @ channel_line (last chs)"
proof -
  assume ne: "chs \<noteq> []"
  then have "chs = butlast chs @ [last chs]" by simp
  then have "concat (map channel_line chs)
      = concat (map channel_line (butlast chs @ [last chs]))" by simp
  then have "concat (map channel_line chs)
      = concat (map channel_line (butlast chs)) @ channel_line (last chs)"
    by (simp only: concat_map_snoc)
  then have "category_block (k, chs)
      = (k @ '',#genre#'' @ [LF] @ concat (map channel_line (butlast chs))) @ channel_line (last chs)"
    by (simp add: category_block_def)
  then show ?thesis by blast
qed

lemma written_text_ends:
  assumes "emitted c \<noteq> []"
  shows "\<exists>pre. written_text c = pre @ channel_line (last (snd (last (emitted c))))"
proof -
  let ?bs = "map category_block (emitted c)"
  from assms have ne: "?bs \<noteq> []" by simp
  then obtain pre where p: "join_blocks ?bs = pre @ last ?bs" using join_blocks_last by blast
  have l: "last ?bs = category_block (last (emitted c))" using assms by (simp add: last_map)
  obtain k chs where kc: "last (emitted c) = (k, chs)" by (cases "last (emitted c)")
  have "last (emitted c) \<in> set (emitted c)" using assms by simp
  then have "chs \<noteq> []" using kc by (auto simp: emitted_def)
  then obtain pre' where "category_block (k, chs) = pre' @ channel_line (last chs)"
    using category_block_last by blast
  with p l kc have "written_text c = (pre @ pre') @ channel_line (last (snd (last (emitted c))))"
    by (simp add: written_text_spec spec_text_def)
  then show ?thesis by blast
qed

lemma keys_dd_append: "fst ` set (dd_append k v d) = insert k (fst ` set d)"
proof (induction d)
  case Nil
  then show ?case by simp
next
  case (Cons p d)
  obtain k' vs where p: "p = (k', vs)" by (cases p)
  show ?case
  proof (cases "k' = k")
    case True
    with p show ?thesis by auto
  next
    case False
    with p Cons show ?thesis by auto
  qed
qed

lemma keys_filter_category:
  "k' \<in> fst ` set (filter_category acc (k, chs)) \<Longrightarrow>
   k' \<in> fst ` set acc \<or> (k' = k \<and> (\<exists>ch\<in>set chs. is_ipv6_url (url ch)))"
proof (induction chs arbitrary: acc)
  case Nil
  then show ?case by (simp add: filter_category_def)
next
  case (Cons ch chs)
  let ?acc' = "if is_ipv6_url (url ch) then dd_append k ch acc else acc"
  from Cons.prems have "k' \<in> fst ` set (filter_category ?acc' (k, chs))"
    by (simp add: filter_category_def)
  then have "k' \<in> fst ` set ?acc' \<or> (k' = k \<and> (\<exists>ch\<in>set chs. is_ipv6_url (url ch)))"
    by (rule Cons.IH)
  then show ?case
  proof
    assume a: "k' \<in> fst ` set ?acc'"
    show ?thesis
    proof (cases "is_ipv6_url (url ch)")
      case True
      with a have "k' \<in> insert k (fst ` set acc)" by (simp add: keys_dd_append)
      with True show ?thesis by auto
    next
      case False
      with a show ?thesis by simp
    qed
  next
    assume "k' = k \<and> (\<exists>ch\<in>set chs. is_ipv6_url (url ch))"
    then show ?thesis by auto
  qed
qed

lemma keys_foldl_filter_category:
  "k' \<in> fst ` set (foldl filter_category acc c) \<Longrightarrow>
   k' \<in> fst ` set acc
   \<or> (\<exists>chs. (k', chs) \<in> set c \<and> (\<exists>ch\<in>set chs. is_ipv6_url (url ch)))"
proof (induction c arbitrary: acc)
  case Nil
  then show ?case by simp
next
  case (Cons item c)
  obtain k chs where item: "item = (k, chs)" by (cases item)
  from Cons.prems have "k' \<in> fst ` set (foldl filter_category (filter_category acc item) c)"
    by simp
  then have "k' \<in> fst ` set (filter_category acc item)
      \<or> (\<exists>chs. (k', chs) \<in> set c \<and> (\<exists>ch\<in>set chs. is_ipv6_url (url ch)))"
    by (rule Cons.IH)
  then show ?case
  proof
    assume "k' \<in> fst ` set (filter_category acc item)"
    then have "k' \<in> fst ` set acc \<or> (k' = k \<and> (\<exists>ch\<in>set chs. is_ipv6_url (url ch)))"
      unfolding item by (rule keys_filter_category)
    then show ?thesis using item by auto
  next
    assume "\<exists>chs. (k', chs) \<in> set c \<and> (\<exists>ch\<in>set chs. is_ipv6_url (url ch))"
    then show ?thesis by auto
  qed
qed

lemma keys_foldl_dedup_step:
  "fst ` set (foldl dedup_step acc c) = fst ` set acc \<union> fst ` set c"
proof (induction c arbitrary: acc)
  case Nil
  then show ?case by simp
next
  case (Cons item c)
  obtain k l where item: "item = (k, l)" by (cases item)
  have "set (map fst (dedup_step acc item)) = insert k (set (map fst acc))"
    by (auto simp: dedup_step_def item keys_dict_set)
  then have "fst ` set (dedup_step acc item) = insert k (fst ` set acc)" by simp
  with Cons.IH [of "dedup_step acc item"] item show ?case by auto
qed

lemma pruned_category:
  assumes "wf_dict c" and "(k, chs) \<in> set c" and "\<forall>ch\<in>set chs. \<not> is_ipv6_url (url ch)"
  shows "k \<notin> fst ` set (remove_duplicates_keep_best (filter_ipv6_channels c))"
proof
  assume "k \<in> fst ` set (remove_duplicates_keep_best (filter_ipv6_channels c))"
  then have "k \<in> fst ` set (filter_ipv6_channels c)"
    by (simp add: remove_duplicates_keep_best_def keys_foldl_dedup_step)
  then have "k \<in> fst ` set ([] :: catalog)
      \<or> (\<exists>chs. (k, chs) \<in> set c \<and> (\<exists>ch\<in>set chs. is_ipv6_url (url ch)))"
    unfolding filter_ipv6_channels_def by (rule keys_foldl_filter_category)
  then obtain chs' where c': "(k, chs') \<in> set c" and v: "\<exists>ch\<in>set chs'. is_ipv6_url (url ch)"
    by auto
  from assms(1) have d: "distinct (map fst c)" by (simp add: wf_dict_def)
  have "chs' = chs" using eq_key_imp_eq_value [OF d c' assms(2)] .
  with v assms(3) show False by blast
qed

lemma files_print: "files (print s w) = files w"
  by (simp add: print_def)

lemma files_print_summary: "files (print_summary c w) = files w"
  unfolding print_summary_def
  by (induction c arbitrary: w) (simp_all add: files_print split: prod.splits)

lemma main_writes:
  assumes "files w result_file = Some text"
    and "filter_ipv6_channels (parse_lines (file_lines text)) \<noteq> []"
  shows "files (main w) = (files w)(ipv6_file \<mapsto>
           written_text (remove_duplicates_keep_best
             (filter_ipv6_channels (parse_lines (file_lines text)))))"
proof -
  have "filter_ipv6_channels [] = []" by (simp add: filter_ipv6_channels_def)
  with assms(2) have ne: "parse_lines (file_lines text) \<noteq> []" by auto
  show ?thesis using assms ne
    by (simp add: main_def read_result_file_def Let_def files_print files_print_summary
        save_channels_to_file_def print_def)
qed

text \<open>
  Claim C5. The text that \<^verbatim>\<open>save_channels_to_file\<close> writes is \<open>spec_text\<close>: categories with
  an empty channel sequence are skipped, a single blank line stands before each emitted
  category except the first, each emitted category gives its header line and one line per
  channel in order. When a category is emitted the text ends with the line of the last channel
  of the last emitted category; the file at the path holds exactly that text. End to end: in a
  catalog with distinct keys, a category whose channels all fail \<open>is_ipv6_url\<close> is not a key
  of the catalog that \<open>main\<close> serializes, and when some channel passes, the output file of
  \<open>main\<close> holds \<open>spec_text\<close> of the filtered and deduplicated catalog.
\<close>

theorem serializer_output:
  "written_text c = spec_text c
   \<and> (emitted c \<noteq> [] \<longrightarrow>
        (\<exists>pre. written_text c = pre @ channel_line (last (snd (last (emitted c))))))
   \<and> files (save_channels_to_file c p w) p = Some (spec_text c)
   \<and> (wf_dict c \<and> (k, chs) \<in> set c \<and> (\<forall>ch\<in>set chs. \<not> is_ipv6_url (url ch)) \<longrightarrow>
        k \<notin> fst ` set (remove_duplicates_keep_best (filter_ipv6_channels c)))
   \<and> (files w result_file = Some text
        \<and> filter_ipv6_channels (parse_lines (file_lines text)) \<noteq> [] \<longrightarrow>
        files (main w) ipv6_file
          = Some (spec_text (remove_duplicates_keep_best
                    (filter_ipv6_channels (parse_lines (file_lines text))))))"
proof (intro conjI impI)
  show "written_text c = spec_text c" by (rule written_text_spec)
  show "\<exists>pre. written_text c = pre @ channel_line (last (snd (last (emitted c))))"
    if "emitted c \<noteq> []" using that by (rule written_text_ends)
  show "files (save_channels_to_file c p w) p = Some (spec_text c)"
    by (simp add: save_channels_to_file_def written_text_spec)
  show "k \<notin> fst ` set (remove_duplicates_keep_best (filter_ipv6_channels c))"
    if "wf_dict c \<and> (k, chs) \<in> set c \<and> (\<forall>ch\<in>set chs. \<not> is_ipv6_url (url ch))"
    using that pruned_category by blast
  show "files (main w) ipv6_file
          = Some (spec_text (remove_duplicates_keep_best
                    (filter_ipv6_channels (parse_lines (file_lines text)))))"
    if "files w result_file = Some text
        \<and> filter_ipv6_channels (parse_lines (file_lines text)) \<noteq> []"
    using that main_writes [of w "text"] by (simp add: written_text_spec)
qed

text \<open>
  The theorem at the end-to-end scenario of the specification: the category
  \<^verbatim>\<open>Sports\<close> is dropped and the output file holds the \<^verbatim>\<open>News\<close> block only.
\<close>

theorem serializer_output_witness:
  "''Sports'' \<notin> fst ` set (remove_duplicates_keep_best (filter_ipv6_channels
       [(''News'', [\<lparr>name = ''CCTV1'', url = ''http://192.168.1.1/live''\<rparr>,
                    \<lparr>name = ''CCTV1'', url = ''http://[2409:8087:1001::5]/live''\<rparr>]),
        (''Sports'', [\<lparr>name = ''ESPN'', url = ''http://10.0.0.1/live''\<rparr>])]))
   \<and> files (main \<lparr>files = [result_file \<mapsto>
          ''News,#genre#'' @ [LF] @ ''CCTV1,http://192.168.1.1/live'' @ [LF]
          @ ''CCTV1,http://[2409:8087:1001::5]/live'' @ [LF]
          @ ''Sports,#genre#'' @ [LF] @ ''ESPN,http://10.0.0.1/live'' @ [LF]],
        console = []\<rparr>) ipv6_file
     = Some (''News,#genre#'' @ [LF] @ ''CCTV1,http://[2409:8087:1001::5]/live'' @ [LF])"
proof -
  let ?c = "[(''News'', [\<lparr>name = ''CCTV1'', url = ''http://192.168.1.1/live''\<rparr>,
                    \<lparr>name = ''CCTV1'', url = ''http://[2409:8087:1001::5]/live''\<rparr>]),
        (''Sports'', [\<lparr>name = ''ESPN'', url = ''http://10.0.0.1/live''\<rparr>])]"
  let ?t = "''News,#genre#'' @ [LF] @ ''CCTV1,http://192.168.1.1/live'' @ [LF]
          @ ''CCTV1,http://[2409:8087:1001::5]/live'' @ [LF]
          @ ''Sports,#genre#'' @ [LF] @ ''ESPN,http://10.0.0.1/live'' @ [LF]"
  let ?w = "\<lparr>files = [result_file \<mapsto> ?t], console = []\<rparr>"
  have wf: "wf_dict ?c" by (simp add: wf_dict_def)
  have no6: "\<not> is_ipv6_url ''http://10.0.0.1/live''" by code_simp
  have parsed: "parse_lines (file_lines ?t) = ?c" by code_simp
  have filtered: "filter_ipv6_channels ?c
      = [(''News'', [\<lparr>name = ''CCTV1'', url = ''http://[2409:8087:1001::5]/live''\<rparr>])]"
    by code_simp
  have final: "remove_duplicates_keep_best
        [(''News'', [\<lparr>name = ''CCTV1'', url = ''http://[2409:8087:1001::5]/live''\<rparr>])]
      = [(''News'', [\<lparr>name = ''CCTV1'', url = ''http://[2409:8087:1001::5]/live''\<rparr>])]"
    by code_simp
  have rendered: "spec_text [(''News'', [\<lparr>name = ''CCTV1'', url = ''http://[2409:8087:1001::5]/live''\<rparr>])]
      = ''News,#genre#'' @ [LF] @ ''CCTV1,http://[2409:8087:1001::5]/live'' @ [LF]"
    by (simp add: spec_text_def emitted_def category_block_def channel_line_def)
  have a: "''Sports'' \<notin> fst ` set (remove_duplicates_keep_best (filter_ipv6_channels ?c))"
    using serializer_output [of ?c ipv6_file ?w "''Sports''"
        "[\<lparr>name = ''ESPN'', url = ''http://10.0.0.1/live''\<rparr>]" ?t] wf no6
    by simp
  have b: "files (main ?w) ipv6_file
      = Some (''News,#genre#'' @ [LF] @ ''CCTV1,http://[2409:8087:1001::5]/live'' @ [LF])"
    using serializer_output [of ?c ipv6_file ?w "''Sports''"
        "[\<lparr>name = ''ESPN'', url = ''http://10.0.0.1/live''\<rparr>]" ?t] parsed filtered final rendered
    by simp
  from a b show ?thesis by blast
qed

section \<open>Properties of the parser loop\<close>

lemma dropWhile_space_hd: "dropWhile py_isspace s \<noteq> [] \<Longrightarrow> \<not> py_isspace (hd (dropWhile py_isspace s))"
  by (rule hd_dropWhile)

text \<open>
  \<^verbatim>\<open>strip\<close>: a stripped string neither begins nor ends with whitespace; a string that
  neither begins nor ends with whitespace is unchanged; whitespace around a string does not
  change the result.
\<close>

lemma py_strip_ends:
  "py_strip s \<noteq> [] \<Longrightarrow> \<not> py_isspace (hd (py_strip s)) \<and> \<not> py_isspace (last (py_strip s))"
proof -
  assume ne: "py_strip s \<noteq> []"
  let ?a = "dropWhile py_isspace s"
  let ?b = "dropWhile py_isspace (rev ?a)"
  from ne have b: "?b \<noteq> []" by (simp add: py_strip_def)
  then have hb: "\<not> py_isspace (hd ?b)" by (rule hd_dropWhile)
  have "last (py_strip s) = hd ?b" using b by (simp add: py_strip_def last_rev)
  with hb have l: "\<not> py_isspace (last (py_strip s))" by simp
  have a: "?a \<noteq> []"
  proof
    assume "?a = []"
    then have "?b = []" by (simp only: rev.simps dropWhile.simps)
    with b show False by simp
  qed
  then have ha: "\<not> py_isspace (hd ?a)" by (rule hd_dropWhile)
  obtain x xs where ax: "?a = x # xs" using a by (cases ?a) auto
  have nx: "\<not> py_isspace x" using ha ax by simp
  have "rev ?a = rev xs @ [x]" using ax by simp
  then have "?b = dropWhile py_isspace (rev xs @ [x])" by simp
  then have "\<exists>ys. ?b = ys @ [x]" using nx
    by (metis append_Nil dropWhile_append dropWhile_append2 dropWhile.simps(2) dropWhile_eq_Nil_conv)
  then obtain ys where "?b = ys @ [x]" by blast
  then have "py_strip s = x # rev ys" by (simp add: py_strip_def)
  with nx have "\<not> py_isspace (hd (py_strip s))" by simp
  with l show ?thesis by simp
qed

lemma py_strip_id:
  "s \<noteq> [] \<Longrightarrow> \<not> py_isspace (hd s) \<Longrightarrow> \<not> py_isspace (last s) \<Longrightarrow> py_strip s = s"
proof -
  assume ne: "s \<noteq> []" and h: "\<not> py_isspace (hd s)" and l: "\<not> py_isspace (last s)"
  from ne h have a: "dropWhile py_isspace s = s" by (cases s) auto
  from ne l have "\<not> py_isspace (hd (rev s))" by (simp add: hd_rev)
  moreover from ne have "rev s \<noteq> []" by simp
  ultimately have "dropWhile py_isspace (rev s) = rev s" by (cases "rev s") auto
  with a show ?thesis by (simp add: py_strip_def)
qed

lemma dropWhile_spaces_append:
  "list_all py_isspace w \<Longrightarrow> dropWhile py_isspace (w @ s) = dropWhile py_isspace s"
  by (induction w) simp_all

lemma py_strip_surrounding:
  assumes "list_all py_isspace w1" and "list_all py_isspace w2"
  shows "py_strip (w1 @ s @ w2) = py_strip s"
proof -
  have r: "list_all py_isspace (rev w2)" using assms(2) by (simp add: list_all_iff)
  show ?thesis
  proof (cases "dropWhile py_isspace s = []")
    case True
    then have all: "list_all py_isspace s" by (simp add: list_all_iff dropWhile_eq_Nil_conv)
    then have "list_all py_isspace (s @ w2)" using assms(2) by simp
    then have "dropWhile py_isspace (s @ w2) = []" by (simp add: list_all_iff dropWhile_eq_Nil_conv)
    then have e: "dropWhile py_isspace (w1 @ s @ w2) = []"
      using dropWhile_spaces_append [OF assms(1), of "s @ w2"] by simp
    show ?thesis unfolding py_strip_def e True by (rule refl)
  next
    case False
    then have ex: "\<exists>x\<in>set s. \<not> py_isspace x" by (simp add: dropWhile_eq_Nil_conv)
    have "dropWhile py_isspace (w1 @ s @ w2) = dropWhile py_isspace (s @ w2)"
      using dropWhile_spaces_append [OF assms(1), of "s @ w2"] by simp
    also have "\<dots> = dropWhile py_isspace s @ w2"
    proof -
      from ex obtain x where "x \<in> set s" and "\<not> py_isspace x" by blast
      then show ?thesis by (rule dropWhile_append1)
    qed
    finally have a: "dropWhile py_isspace (w1 @ s @ w2) = dropWhile py_isspace s @ w2" .
    have "rev (dropWhile py_isspace s @ w2) = rev w2 @ rev (dropWhile py_isspace s)" by simp
    then have "dropWhile py_isspace (rev (dropWhile py_isspace s @ w2))
        = dropWhile py_isspace (rev (dropWhile py_isspace s))"
      using dropWhile_spaces_append [OF r] by simp
    with a show ?thesis by (simp add: py_strip_def)
  qed
qed

text \<open>
  \<^verbatim>\<open>split(sep, 1)\<close> on a string that contains the separator gives the two parts around
  the first separator.
\<close>

lemma py_split1_first_comma:
  "sep \<in> set s \<Longrightarrow>
   \<exists>n u. py_split1 s sep = [n, u] \<and> s = n @ [sep] @ u \<and> sep \<notin> set n"
proof -
  assume m: "sep \<in> set s"
  let ?n = "takeWhile (\<lambda>c. c \<noteq> sep) s"
  let ?d = "dropWhile (\<lambda>c. c \<noteq> sep) s"
  from m have dne: "?d \<noteq> []" by (auto simp: dropWhile_eq_Nil_conv)
  then have "hd ?d = sep" using hd_dropWhile [of "\<lambda>c. c \<noteq> sep" s] by simp
  with dne have d: "?d = sep # tl ?d" by (cases ?d) auto
  have "s = ?n @ ?d" by simp
  with d have s: "s = ?n @ [sep] @ tl ?d" by simp
  have nn: "sep \<notin> set ?n" by (auto dest: set_takeWhileD)
  from m have "py_split1 s sep = [?n, tl ?d]" by (simp add: py_split1_def)
  with s nn show ?thesis by blast
qed

lemma py_split1_parts:
  "sep \<notin> set n \<Longrightarrow> py_split1 (n @ [sep] @ u) sep = [n, u]"
proof -
  assume nn: "sep \<notin> set n"
  then have a: "\<And>x. x \<in> set n \<Longrightarrow> x \<noteq> sep" by auto
  then have t: "takeWhile (\<lambda>c. c \<noteq> sep) (n @ [sep] @ u) = n"
    by (simp add: takeWhile_append2)
  from a have "dropWhile (\<lambda>c. c \<noteq> sep) (n @ [sep] @ u) = sep # u"
    by (simp add: dropWhile_append2)
  with t show ?thesis by (simp add: py_split1_def)
qed

text \<open>
  The four branches of the loop body.
\<close>

lemma parse_line_blank: "py_strip raw = [] \<Longrightarrow> parse_line st raw = st"
  by (simp add: parse_line_def split: prod.splits)

lemma parse_line_marker:
  "py_strip raw \<noteq> [] \<Longrightarrow> py_endswith (py_strip raw) '',#genre#'' \<Longrightarrow>
   parse_line (chs, cur) raw = (chs, py_replace (py_strip raw) '',#genre#'' [])"
  by (simp add: parse_line_def)

lemma parse_line_entry:
  assumes "py_strip raw \<noteq> []" and "\<not> py_endswith (py_strip raw) '',#genre#''"
    and "py_strip raw = n @ '','' @ u" and "CHR '','' \<notin> set n"
  shows "parse_line (chs, cur) raw = (dd_append cur \<lparr>name = n, url = u\<rparr> chs, cur)"
proof -
  have m: "CHR '','' \<in> set (py_strip raw)" using assms(3) by simp
  have "py_split1 (py_strip raw) CHR '','' = [n, u]"
    using py_split1_parts [OF assms(4), of u] assms(3) by simp
  with assms(1,2) m show ?thesis by (simp add: parse_line_def)
qed

lemma parse_line_ignored:
  "py_strip raw \<noteq> [] \<Longrightarrow> \<not> py_endswith (py_strip raw) '',#genre#'' \<Longrightarrow>
   CHR '','' \<notin> set (py_strip raw) \<Longrightarrow> parse_line st raw = st"
  by (simp add: parse_line_def split: prod.splits)

text \<open>
  \<^verbatim>\<open>channels[k].append(v)\<close>: the list of \<open>k\<close> grows by \<open>v\<close> at its end, the other lists
  are unchanged, and a new key goes last.
\<close>

lemma map_of_dd_append_same:
  "map_of (dd_append k v d) k = Some ((case map_of d k of None \<Rightarrow> [] | Some l \<Rightarrow> l) @ [v])"
  by (induction d) auto

lemma map_of_dd_append_other: "k' \<noteq> k \<Longrightarrow> map_of (dd_append k v d) k' = map_of d k'"
  by (induction d) auto

lemma keys_order_dd_append:
  "map fst (dd_append k v d) = (if k \<in> fst ` set d then map fst d else map fst d @ [k])"
proof (induction d)
  case Nil
  then show ?case by simp
next
  case (Cons p d)
  obtain k' vs where p: "p = (k', vs)" by (cases p)
  show ?case
  proof (cases "k' = k")
    case True
    with p show ?thesis by simp
  next
    case False
    with p Cons show ?thesis by simp
  qed
qed

text \<open>
  Claim C6. For a line that is neither blank nor a marker line (after \<^verbatim>\<open>strip\<close>): if it
  contains a comma, then it is \<open>n @ '','' @ u\<close> where \<open>n\<close> holds no comma, that is, it is
  split at its first comma, and for that \<open>n\<close> and \<open>u\<close> (\<open>u\<close> keeps any further comma) the
  loop body appends the channel of name \<open>n\<close> and URL \<open>u\<close> to the list of the current
  category and leaves the current category unchanged; if it contains no comma the state is
  unchanged (the line is ignored, nothing fails). Appending puts the channel after the
  channels that the category already holds, leaves the other categories unchanged and
  keeps the order of the keys, a new category going last.
\<close>

theorem parse_line_channel:
  assumes "py_strip raw \<noteq> []" and "\<not> py_endswith (py_strip raw) '',#genre#''"
  shows "(CHR '','' \<in> set (py_strip raw) \<longrightarrow>
           (\<exists>n u. py_strip raw = n @ '','' @ u \<and> CHR '','' \<notin> set n))
         \<and> (py_strip raw = n @ '','' @ u \<and> CHR '','' \<notin> set n \<longrightarrow>
              parse_line (chs, cur) raw = (dd_append cur \<lparr>name = n, url = u\<rparr> chs, cur))
         \<and> (CHR '','' \<notin> set (py_strip raw) \<longrightarrow> parse_line (chs, cur) raw = (chs, cur))
         \<and> map_of (dd_append cur ch chs) cur
             = Some ((case map_of chs cur of None \<Rightarrow> [] | Some l \<Rightarrow> l) @ [ch])
         \<and> (\<forall>k. k \<noteq> cur \<longrightarrow> map_of (dd_append cur ch chs) k = map_of chs k)
         \<and> map fst (dd_append cur ch chs)
             = (if cur \<in> fst ` set chs then map fst chs else map fst chs @ [cur])"
proof (intro conjI impI allI)
  show "\<exists>n u. py_strip raw = n @ '','' @ u \<and> CHR '','' \<notin> set n"
    if m: "CHR '','' \<in> set (py_strip raw)"
  proof -
    from m obtain n u where s: "py_strip raw = n @ [CHR '',''] @ u" and nn: "CHR '','' \<notin> set n"
      using py_split1_first_comma [of "CHR '',''" "py_strip raw"] by blast
    from s have "py_strip raw = n @ '','' @ u" by simp
    with nn show ?thesis by blast
  qed
  show "parse_line (chs, cur) raw = (dd_append cur \<lparr>name = n, url = u\<rparr> chs, cur)"
    if d: "py_strip raw = n @ '','' @ u \<and> CHR '','' \<notin> set n"
  proof -
    from d have s: "py_strip raw = n @ '','' @ u" and nn: "CHR '','' \<notin> set n" by simp_all
    from assms s nn show ?thesis by (rule parse_line_entry)
  qed
  show "parse_line (chs, cur) raw = (chs, cur)" if "CHR '','' \<notin> set (py_strip raw)"
    using assms that by (rule parse_line_ignored)
  show "map_of (dd_append cur ch chs) cur
             = Some ((case map_of chs cur of None \<Rightarrow> [] | Some l \<Rightarrow> l) @ [ch])"
    by (rule map_of_dd_append_same)
  show "map_of (dd_append cur ch chs) k = map_of chs k" if "k \<noteq> cur" for k
    using that by (rule map_of_dd_append_other)
  show "map fst (dd_append cur ch chs)
             = (if cur \<in> fst ` set chs then map fst chs else map fst chs @ [cur])"
    by (rule keys_order_dd_append)
qed

text \<open>
  Claim C6 on three lines: a channel line with surrounding blanks and a second comma,
  parsed under a category that already holds a channel; a channel line under a category
  not yet in the dictionary; a line without comma.
\<close>

theorem parse_line_channel_witness:
  "parse_line ([(''News'', [\<lparr>name = ''A'', url = ''u''\<rparr>])], ''News'') ''  CCTV1,http://a/b,c  ''
     = ([(''News'', [\<lparr>name = ''A'', url = ''u''\<rparr>, \<lparr>name = ''CCTV1'', url = ''http://a/b,c''\<rparr>])],
        ''News'')
   \<and> parse_line ([(''News'', [\<lparr>name = ''A'', url = ''u''\<rparr>])], ''Sports'') ''ESPN,x''
     = ([(''News'', [\<lparr>name = ''A'', url = ''u''\<rparr>]), (''Sports'', [\<lparr>name = ''ESPN'', url = ''x''\<rparr>])],
        ''Sports'')
   \<and> parse_line ([(''News'', [\<lparr>name = ''A'', url = ''u''\<rparr>])], ''News'') ''no comma here''
     = ([(''News'', [\<lparr>name = ''A'', url = ''u''\<rparr>])], ''News'')"
proof -
  let ?chs = "[(''News'', [\<lparr>name = ''A'', url = ''u''\<rparr>])]"
  have s1: "py_strip ''  CCTV1,http://a/b,c  '' = ''CCTV1,http://a/b,c''" by code_simp
  have s2: "py_strip ''ESPN,x'' = ''ESPN,x''" by code_simp
  have s3: "py_strip ''no comma here'' = ''no comma here''" by code_simp
  have e1: "\<not> py_endswith ''CCTV1,http://a/b,c'' '',#genre#''" by code_simp
  have e2: "\<not> py_endswith ''ESPN,x'' '',#genre#''" by code_simp
  have e3: "\<not> py_endswith ''no comma here'' '',#genre#''" by code_simp
  have x: "parse_line (?chs, ''News'') ''  CCTV1,http://a/b,c  ''
     = ([(''News'', [\<lparr>name = ''A'', url = ''u''\<rparr>, \<lparr>name = ''CCTV1'', url = ''http://a/b,c''\<rparr>])],
        ''News'')"
    using parse_line_channel [of "''  CCTV1,http://a/b,c  ''" "''CCTV1''" "''http://a/b,c''" ?chs "''News''"]
    by (simp add: s1 e1)
  have y: "parse_line (?chs, ''Sports'') ''ESPN,x''
     = ([(''News'', [\<lparr>name = ''A'', url = ''u''\<rparr>]), (''Sports'', [\<lparr>name = ''ESPN'', url = ''x''\<rparr>])],
        ''Sports'')"
    using parse_line_channel [of "''ESPN,x''" "''ESPN''" "''x''" ?chs "''Sports''"]
    by (simp add: s2 e2)
  have z: "parse_line (?chs, ''News'') ''no comma here'' = (?chs, ''News'')"
    using parse_line_channel [of "''no comma here''" "[]" "[]" ?chs "''News''"]
    by (simp add: s3 e3)
  from x y z show ?thesis by blast
qed

text \<open>
  Cleanness is an invariant of the loop.
\<close>

lemma clean_dd_append:
  "clean_catalog d \<Longrightarrow> clean_channel ch \<Longrightarrow> clean_catalog (dd_append k ch d)"
proof (induction d)
  case Nil
  then show ?case by (simp add: clean_catalog_def)
next
  case (Cons p d)
  obtain k' vs where p: "p = (k', vs)" by (cases p)
  from Cons.prems(1) have d: "clean_catalog d" and vs: "list_all clean_channel vs"
    by (simp_all add: clean_catalog_def p)
  show ?case
  proof (cases "k' = k")
    case True
    with p d vs Cons.prems(2) show ?thesis by (simp add: clean_catalog_def)
  next
    case False
    have "clean_catalog (dd_append k ch d)" using d Cons.prems(2) by (rule Cons.IH)
    with False p vs show ?thesis by (simp add: clean_catalog_def)
  qed
qed

lemma clean_split:
  assumes "py_strip raw = n @ '','' @ u"
  shows "clean_channel \<lparr>name = n, url = u\<rparr>"
proof -
  from assms have ne: "py_strip raw \<noteq> []" by simp
  then have h: "\<not> py_isspace (hd (py_strip raw))" and l: "\<not> py_isspace (last (py_strip raw))"
    using py_strip_ends by blast+
  have a: "n = [] \<or> \<not> py_isspace (hd n)"
  proof (cases "n = []")
    case True
    then show ?thesis by simp
  next
    case False
    then have "hd (py_strip raw) = hd n" using assms by simp
    with h show ?thesis by simp
  qed
  have b: "u = [] \<or> \<not> py_isspace (last u)"
  proof (cases "u = []")
    case True
    then show ?thesis by simp
  next
    case False
    then have "last (py_strip raw) = last u" using assms by simp
    with l show ?thesis by simp
  qed
  from a b show ?thesis by (simp add: clean_channel_def)
qed

lemma parse_line_clean:
  assumes "clean_catalog chs"
  shows "clean_catalog (fst (parse_line (chs, cur) raw))"
proof (cases "py_strip raw = []")
  case True
  then show ?thesis using assms by (simp add: parse_line_blank)
next
  case ne: False
  show ?thesis
  proof (cases "py_endswith (py_strip raw) '',#genre#''")
    case True
    then show ?thesis using assms ne by (simp add: parse_line_marker)
  next
    case nm: False
    show ?thesis
    proof (cases "CHR '','' \<in> set (py_strip raw)")
      case True
      then obtain n u where s: "py_strip raw = n @ [CHR '',''] @ u" and nn: "CHR '','' \<notin> set n"
        using py_split1_first_comma [of "CHR '',''" "py_strip raw"] by blast
      from s have s': "py_strip raw = n @ '','' @ u" by simp
      have p: "parse_line (chs, cur) raw = (dd_append cur \<lparr>name = n, url = u\<rparr> chs, cur)"
        using ne nm s' nn by (rule parse_line_entry)
      have "clean_channel \<lparr>name = n, url = u\<rparr>" using s' by (rule clean_split)
      with assms have "clean_catalog (dd_append cur \<lparr>name = n, url = u\<rparr> chs)"
        by (rule clean_dd_append)
      with p show ?thesis by simp
    next
      case False
      with ne nm have "parse_line (chs, cur) raw = (chs, cur)" by (rule parse_line_ignored)
      with assms show ?thesis by simp
    qed
  qed
qed

lemma foldl_parse_line_clean:
  "clean_catalog (fst st) \<Longrightarrow> clean_catalog (fst (foldl parse_line st ls))"
proof (induction ls arbitrary: st)
  case Nil
  then show ?case by simp
next
  case (Cons raw ls)
  obtain chs cur where st: "st = (chs, cur)" by (cases st)
  with Cons.prems have "clean_catalog (fst (parse_line st raw))"
    by (simp add: parse_line_clean)
  then have "clean_catalog (fst (foldl parse_line (parse_line st raw) ls))" by (rule Cons.IH)
  then show ?case by simp
qed

lemma parse_lines_clean: "clean_catalog (parse_lines ls)"
  unfolding parse_lines_def by (rule foldl_parse_line_clean) (simp add: clean_catalog_def)

lemma parse_line_surrounding:
  assumes "list_all py_isspace w1" and "list_all py_isspace w2"
  shows "parse_line st (w1 @ l @ w2) = parse_line st l"
  unfolding parse_line_def py_strip_surrounding [OF assms] by (rule refl)

text \<open>
  Claim C9. In every catalog that the parser produces (from a list of lines, and from a
  file, present or not) no channel name begins with whitespace and no channel URL ends with
  whitespace; and whitespace around a line changes neither the stripped line, nor what the
  loop body does with it in any state, nor the catalog parsed from a file in which the
  line stands. Whitespace is what \<^verbatim>\<open>strip()\<close> removes, among the code points below 256.
\<close>

theorem parser_strips_whitespace:
  "clean_catalog (parse_lines ls)
   \<and> clean_catalog (fst (read_result_file file_path w))
   \<and> (list_all py_isspace w1 \<and> list_all py_isspace w2 \<longrightarrow>
        py_strip (w1 @ l @ w2) = py_strip l
        \<and> parse_line st (w1 @ l @ w2) = parse_line st l
        \<and> parse_lines (pre @ [w1 @ l @ w2] @ post) = parse_lines (pre @ [l] @ post))"
proof (intro conjI impI)
  show "clean_catalog (parse_lines ls)" by (rule parse_lines_clean)
  show "clean_catalog (fst (read_result_file file_path w))"
  proof (cases "files w file_path")
    case None
    then show ?thesis by (simp add: read_result_file_def clean_catalog_def)
  next
    case (Some t)
    then show ?thesis by (simp add: read_result_file_def parse_lines_clean)
  qed
next
  assume a: "list_all py_isspace w1 \<and> list_all py_isspace w2"
  then show "py_strip (w1 @ l @ w2) = py_strip l" by (simp add: py_strip_surrounding)
  from a show "parse_line st (w1 @ l @ w2) = parse_line st l" by (simp add: parse_line_surrounding)
  from a have "\<And>s. parse_line s (w1 @ l @ w2) = parse_line s l" by (simp add: parse_line_surrounding)
  then show "parse_lines (pre @ [w1 @ l @ w2] @ post) = parse_lines (pre @ [l] @ post)"
    by (simp add: parse_lines_def)
qed

text \<open>
  Claim C9 on a file of three lines: the second line is surrounded by a tab, blanks and a
  line end; the third has blanks around its comma, which stay in the name and in the URL.
\<close>

theorem parser_strips_whitespace_witness:
  "parse_lines [''News,#genre#'', [CHR 0x09] @ '' CCTV1,http://a '' @ [CR, LF], '' x ,  y '']
     = [(''News'', [\<lparr>name = ''CCTV1'', url = ''http://a''\<rparr>, \<lparr>name = ''x '', url = ''  y''\<rparr>])]
   \<and> clean_catalog [(''News'', [\<lparr>name = ''CCTV1'', url = ''http://a''\<rparr>, \<lparr>name = ''x '', url = ''  y''\<rparr>])]"
proof -
  let ?pre = "[''News,#genre#'']"
  let ?post = "['' x ,  y '']"
  let ?w1 = "[CHR 0x09] @ '' ''"
  let ?w2 = "'' '' @ [CR, LF]"
  have w: "list_all py_isspace ?w1 \<and> list_all py_isspace ?w2" by code_simp
  have p: "parse_lines (?pre @ [''CCTV1,http://a''] @ ?post)
     = [(''News'', [\<lparr>name = ''CCTV1'', url = ''http://a''\<rparr>, \<lparr>name = ''x '', url = ''  y''\<rparr>])]"
    by code_simp
  have "parse_lines (?pre @ [?w1 @ ''CCTV1,http://a'' @ ?w2] @ ?post)
      = parse_lines (?pre @ [''CCTV1,http://a''] @ ?post)"
    using parser_strips_whitespace [of "[]" "[]" "\<lparr>files = Map.empty, console = []\<rparr>" ?w1 ?w2
        "''CCTV1,http://a''" "([], [])" ?pre ?post] w by blast
  with p have a: "parse_lines [''News,#genre#'', [CHR 0x09] @ '' CCTV1,http://a '' @ [CR, LF], '' x ,  y '']
     = [(''News'', [\<lparr>name = ''CCTV1'', url = ''http://a''\<rparr>, \<lparr>name = ''x '', url = ''  y''\<rparr>])]"
    by simp
  have "clean_catalog (parse_lines [''News,#genre#'', [CHR 0x09] @ '' CCTV1,http://a '' @ [CR, LF], '' x ,  y ''])"
    using parser_strips_whitespace
      [of "[''News,#genre#'', [CHR 0x09] @ '' CCTV1,http://a '' @ [CR, LF], '' x ,  y '']" "[]"
          "\<lparr>files = Map.empty, console = []\<rparr>" "[]" "[]" "[]" "([], [])" "[]" "[]"]
    by blast
  with a show ?thesis by simp
qed

section \<open>Properties of the parser: repeated labels\<close>

text \<open>
  The loop body acts on the event of the line.
\<close>

lemma parse_line_event:
  "parse_line (chs, cur) raw =
     (case line_event raw of
        None \<Rightarrow> (chs, cur)
      | Some (Marker l) \<Rightarrow> (chs, l)
      | Some (Entry ch) \<Rightarrow> (dd_append cur ch chs, cur))"
  by (simp add: parse_line_def line_event_def Let_def split: list.splits)

lemma foldl_parse_line_events:
  "fst (foldl parse_line (chs, cur) ls) = foldl add_channel chs (tagged cur (events ls))"
proof (induction ls arbitrary: chs cur)
  case Nil
  then show ?case by simp
next
  case (Cons raw ls)
  show ?case
  proof (cases "line_event raw")
    case None
    then have "parse_line (chs, cur) raw = (chs, cur)" by (simp add: parse_line_event)
    with None Cons.IH [of chs cur] show ?thesis by simp
  next
    case (Some e)
    show ?thesis
    proof (cases e)
      case (Marker l)
      with Some have "parse_line (chs, cur) raw = (chs, l)" by (simp add: parse_line_event)
      with Some Marker Cons.IH [of chs l] show ?thesis by simp
    next
      case (Entry ch)
      with Some have "parse_line (chs, cur) raw = (dd_append cur ch chs, cur)"
        by (simp add: parse_line_event)
      with Some Entry Cons.IH [of "dd_append cur ch chs" cur] show ?thesis
        by (simp add: add_channel_def)
    qed
  qed
qed

text \<open>
  Appending one labelled channel to the input appends it to the entry of its label, which
  is created last when the label is new.
\<close>

lemma first_occurrences_snoc:
  "first_occurrences (xs @ [y])
     = (if y \<in> set xs then first_occurrences xs else first_occurrences xs @ [y])"
proof (induction xs rule: first_occurrences.induct)
  case 1
  then show ?case by simp
next
  case (2 x xs)
  show ?case
  proof (cases "y = x")
    case True
    then show ?thesis by simp
  next
    case False
    then have "filter (\<lambda>z. z \<noteq> x) (xs @ [y]) = filter (\<lambda>z. z \<noteq> x) xs @ [y]" by simp
    moreover from False have "(y \<in> set (filter (\<lambda>z. z \<noteq> x) xs)) = (y \<in> set xs)" by simp
    ultimately show ?thesis using 2 False by simp
  qed
qed

lemma dd_append_map_out:
  "k \<notin> set ks \<Longrightarrow>
   dd_append k v (map (\<lambda>l. (l, g l)) ks) = map (\<lambda>l. (l, g l)) ks @ [(k, [v])]"
  by (induction ks) auto

lemma dd_append_map_in:
  "distinct ks \<Longrightarrow> k \<in> set ks \<Longrightarrow>
   dd_append k v (map (\<lambda>l. (l, g l)) ks)
     = map (\<lambda>l. (l, if l = k then g l @ [v] else g l)) ks"
proof (induction ks)
  case Nil
  then show ?case by simp
next
  case (Cons l ks)
  show ?case
  proof (cases "l = k")
    case True
    with Cons.prems have "k \<notin> set ks" by simp
    then have "map (\<lambda>l. (l, if l = k then g l @ [v] else g l)) ks = map (\<lambda>l. (l, g l)) ks"
      by (intro map_cong) auto
    with True show ?thesis by simp
  next
    case False
    with Cons show ?thesis by simp
  qed
qed

lemma channels_under_snoc:
  "channels_under l (ps @ [(k, v)]) = channels_under l ps @ (if l = k then [v] else [])"
  by (simp add: channels_under_def)

lemma channels_under_absent: "k \<notin> fst ` set ps \<Longrightarrow> channels_under k ps = []"
  by (auto simp: channels_under_def filter_empty_conv)

lemma merged_snoc: "merged (ps @ [(k, v)]) = dd_append k v (merged ps)"
proof (cases "k \<in> fst ` set ps")
  case True
  let ?ks = "first_occurrences (map fst ps)"
  from True have f: "first_occurrences (map fst (ps @ [(k, v)])) = ?ks"
    by (simp add: first_occurrences_snoc)
  have d: "distinct ?ks" by (rule distinct_first_occurrences)
  from True have m: "k \<in> set ?ks" by (simp add: set_first_occurrences)
  have "merged (ps @ [(k, v)])
      = map (\<lambda>l. (l, channels_under l ps @ (if l = k then [v] else []))) ?ks"
    unfolding merged_def f by (simp only: channels_under_snoc)
  also have "\<dots> = map (\<lambda>l. (l, if l = k then channels_under l ps @ [v] else channels_under l ps)) ?ks"
    by (intro map_cong) auto
  also have "\<dots> = dd_append k v (map (\<lambda>l. (l, channels_under l ps)) ?ks)"
    using dd_append_map_in [OF d m, of v "\<lambda>l. channels_under l ps"] by simp
  finally show ?thesis by (simp add: merged_def)
next
  case False
  let ?ks = "first_occurrences (map fst ps)"
  from False have f: "first_occurrences (map fst (ps @ [(k, v)])) = ?ks @ [k]"
    by (simp add: first_occurrences_snoc)
  from False have m: "k \<notin> set ?ks" by (simp add: set_first_occurrences)
  have "merged (ps @ [(k, v)])
      = map (\<lambda>l. (l, channels_under l ps @ (if l = k then [v] else []))) (?ks @ [k])"
    unfolding merged_def f by (simp only: channels_under_snoc)
  also have "\<dots> = map (\<lambda>l. (l, channels_under l ps @ (if l = k then [v] else []))) ?ks
        @ [(k, channels_under k ps @ [v])]" by simp
  also have "map (\<lambda>l. (l, channels_under l ps @ (if l = k then [v] else []))) ?ks
      = map (\<lambda>l. (l, channels_under l ps)) ?ks"
    using m by (intro map_cong) auto
  also have "channels_under k ps = []" using False by (rule channels_under_absent)
  finally have "merged (ps @ [(k, v)]) = map (\<lambda>l. (l, channels_under l ps)) ?ks @ [(k, [v])]"
    by simp
  also have "\<dots> = dd_append k v (map (\<lambda>l. (l, channels_under l ps)) ?ks)"
    using dd_append_map_out [OF m, of v "\<lambda>l. channels_under l ps"] by simp
  finally show ?thesis by (simp add: merged_def)
qed

lemma foldl_add_channel_merged: "foldl add_channel [] ps = merged ps"
proof (induction ps rule: rev_induct)
  case Nil
  then show ?case by (simp add: merged_def)
next
  case (snoc p ps)
  obtain k v where p: "p = (k, v)" by (cases p)
  show ?case using snoc by (simp add: p add_channel_def merged_snoc)
qed

lemma parse_lines_merged: "parse_lines ls = merged (tagged [] (events ls))"
  by (simp add: parse_lines_def foldl_parse_line_events foldl_add_channel_merged)

lemma keys_merged: "map fst (merged ps) = first_occurrences (map fst ps)"
  by (simp add: merged_def comp_def)

lemma wf_dict_parse_lines: "wf_dict (parse_lines ls)"
  by (simp add: wf_dict_def parse_lines_merged keys_merged distinct_first_occurrences)

text \<open>
  Claim C10 as stated does not hold: an entry is not always at the place of its label's
  first marker line. In the file below the label \<^verbatim>\<open>A\<close> is set by two marker lines, the
  first one before the marker line of \<^verbatim>\<open>B\<close>, but no channel line stands under the first
  one; the entry of \<^verbatim>\<open>A\<close> comes after the entry of \<^verbatim>\<open>B\<close>.
\<close>

theorem label_position_counterexample:
  "marker_labels (events [''A,#genre#'', ''B,#genre#'', ''x,1'', ''A,#genre#'', ''y,2''])
     = [''A'', ''B'', ''A'']
   \<and> parse_lines [''A,#genre#'', ''B,#genre#'', ''x,1'', ''A,#genre#'', ''y,2'']
     = [(''B'', [\<lparr>name = ''x'', url = ''1''\<rparr>]), (''A'', [\<lparr>name = ''y'', url = ''2''\<rparr>])]
   \<and> map fst (parse_lines [''A,#genre#'', ''B,#genre#'', ''x,1'', ''A,#genre#'', ''y,2''])
     \<noteq> first_occurrences
          (marker_labels (events [''A,#genre#'', ''B,#genre#'', ''x,1'', ''A,#genre#'', ''y,2'']))"
  by code_simp

text \<open>
  Claim C10, amended. The parsed catalog has one entry per label under which a channel
  line stands, and no other entry: the entry holds the channels of all the blocks of the
  label, in overall input order, and the entries are in the order of the first channel line
  under each label (not of the first marker line of the label); the keys are distinct. A
  label under which no channel line stands has no entry. In the file of six lines below the
  label \<^verbatim>\<open>A\<close> is set twice and its two blocks are merged into the first entry.
\<close>

theorem parser_merges_labels:
  "parse_lines ls = merged (tagged [] (events ls))
   \<and> map fst (parse_lines ls) = first_occurrences (map fst (tagged [] (events ls)))
   \<and> wf_dict (parse_lines ls)
   \<and> parse_lines [''A,#genre#'', ''x,1'', ''B,#genre#'', ''y,2'', ''A,#genre#'', ''z,3'']
     = [(''A'', [\<lparr>name = ''x'', url = ''1''\<rparr>, \<lparr>name = ''z'', url = ''3''\<rparr>]),
        (''B'', [\<lparr>name = ''y'', url = ''2''\<rparr>])]"
proof -
  have a: "parse_lines ls = merged (tagged [] (events ls))" by (rule parse_lines_merged)
  have b: "map fst (parse_lines ls) = first_occurrences (map fst (tagged [] (events ls)))"
    by (simp add: parse_lines_merged keys_merged)
  have c: "wf_dict (parse_lines ls)" by (rule wf_dict_parse_lines)
  have d: "parse_lines [''A,#genre#'', ''x,1'', ''B,#genre#'', ''y,2'', ''A,#genre#'', ''z,3'']
     = [(''A'', [\<lparr>name = ''x'', url = ''1''\<rparr>, \<lparr>name = ''z'', url = ''3''\<rparr>]),
        (''B'', [\<lparr>name = ''y'', url = ''2''\<rparr>])]"
    by code_simp
  from a b c d show ?thesis by blast
qed

section \<open>Properties of the round trip\<close>

text \<open>
  Reading back a text made of lines without line ends, each followed by \<^verbatim>\<open>'\n'\<close>, yields
  these lines.
\<close>

lemma lines_from_line:
  "no_newline s \<Longrightarrow> lines_from cur (s @ LF # rest) = (cur @ s @ [LF]) # lines_from [] rest"
proof (induction s arbitrary: cur)
  case Nil
  then show ?case by simp
next
  case (Cons c s)
  from Cons.prems have c: "c \<noteq> LF" "c \<noteq> CR" and s: "no_newline s"
    by (auto simp: no_newline_def)
  have "lines_from cur ((c # s) @ LF # rest) = lines_from (cur @ [c]) (s @ LF # rest)"
    using c by simp
  also have "\<dots> = ((cur @ [c]) @ s @ [LF]) # lines_from [] rest" using s by (rule Cons.IH)
  finally show ?case by simp
qed

lemma lines_from_terminated:
  "list_all no_newline ls \<Longrightarrow>
   lines_from [] (concat (terminated ls) @ rest) = terminated ls @ lines_from [] rest"
proof (induction ls)
  case Nil
  then show ?case by (simp add: terminated_def)
next
  case (Cons l ls)
  from Cons.prems have l: "no_newline l" and ls: "list_all no_newline ls" by simp_all
  have "concat (terminated (l # ls)) @ rest = l @ LF # (concat (terminated ls) @ rest)"
    by (simp add: terminated_def)
  then have "lines_from [] (concat (terminated (l # ls)) @ rest)
      = ([] @ l @ [LF]) # lines_from [] (concat (terminated ls) @ rest)"
    using lines_from_line [OF l, of "[]" "concat (terminated ls) @ rest"] by simp
  also have "\<dots> = ([] @ l @ [LF]) # terminated ls @ lines_from [] rest"
    using Cons.IH [OF ls] by simp
  finally show ?case by (simp add: terminated_def)
qed

lemma category_block_lines: "category_block item = concat (terminated (block_lines item))"
proof -
  obtain k chs where item: "item = (k, chs)" by (cases item)
  have "concat (map channel_line chs) = concat (terminated (map channel_text chs))"
    by (induction chs) (simp_all add: terminated_def channel_line_def channel_text_def)
  then show ?thesis
    by (simp add: item category_block_def block_lines_def terminated_def)
qed

text \<open>
  The marker does not overlap itself: an occurrence of the marker in a label followed by
  the marker lies within the label. So \<^verbatim>\<open>replace\<close> gives back a label that does not
  contain the marker.
\<close>

lemma marker_shift: "0 < n \<Longrightarrow> n < 8 \<Longrightarrow> '',#genre#'' ! n \<noteq> CHR '',''"
proof -
  assume "0 < n" and "n < 8"
  then have "n = 1 \<or> n = 2 \<or> n = 3 \<or> n = 4 \<or> n = 5 \<or> n = 6 \<or> n = 7" by arith
  then show ?thesis by auto
qed

lemma startswith_marker_append:
  assumes "py_startswith (k @ '',#genre#'') '',#genre#''" and "k \<noteq> []"
  shows "py_startswith k '',#genre#''"
proof -
  have len: "length '',#genre#'' = (8::nat)" by simp
  from assms(1) have t: "take 8 (k @ '',#genre#'') = '',#genre#''"
    unfolding py_startswith_def len .
  show ?thesis
  proof (cases "length k < 8")
    case True
    have "take 8 (k @ '',#genre#'') ! length k = (k @ '',#genre#'') ! length k"
      using True by (rule nth_take)
    also have "\<dots> = CHR '',''" by (simp add: nth_append)
    finally have "'',#genre#'' ! length k = CHR '',''" unfolding t .
    moreover have "0 < length k" using assms(2) by simp
    ultimately show ?thesis using marker_shift [of "length k"] True by blast
  next
    case False
    then have "take 8 (k @ '',#genre#'') = take 8 k" by simp
    with t have "take 8 k = '',#genre#''" by simp
    then show ?thesis unfolding py_startswith_def len .
  qed
qed

lemma replace_scan_marker: "replace_scan '',#genre#'' '',#genre#'' [] = []"
  by (simp add: py_startswith_def)

lemma replace_scan_label:
  "\<not> py_contains k '',#genre#'' \<Longrightarrow> replace_scan (k @ '',#genre#'') '',#genre#'' [] = k"
proof (induction k)
  case Nil
  then show ?case by (simp only: append_Nil replace_scan_marker)
next
  case (Cons c k)
  from Cons.prems have a: "\<not> py_startswith (c # k) '',#genre#''"
    and b: "\<not> py_contains k '',#genre#''" by simp_all
  have "\<not> py_startswith ((c # k) @ '',#genre#'') '',#genre#''"
    using a startswith_marker_append [of "c # k"] by blast
  then have "replace_scan ((c # k) @ '',#genre#'') '',#genre#'' []
      = c # replace_scan (k @ '',#genre#'') '',#genre#'' []"
    by simp
  with Cons.IH [OF b] show ?case by simp
qed

lemma py_replace_label:
  "\<not> py_contains k '',#genre#'' \<Longrightarrow> py_replace (k @ '',#genre#'') '',#genre#'' [] = k"
  by (simp add: py_replace_def replace_scan_label)

text \<open>
  The parser on the lines of a block.
\<close>

lemma not_space_comma: "\<not> py_isspace CHR '',''"
  by code_simp

lemma not_space_hash: "\<not> py_isspace CHR ''#''"
  by code_simp

lemma space_LF: "py_isspace LF"
  by code_simp

lemma py_strip_terminated:
  assumes "s \<noteq> []" and "\<not> py_isspace (hd s)" and "\<not> py_isspace (last s)"
  shows "py_strip (s @ [LF]) = s"
proof -
  have "py_strip ([] @ s @ [LF]) = py_strip s"
    by (rule py_strip_surrounding) (simp_all add: space_LF)
  with py_strip_id [OF assms] show ?thesis by simp
qed

lemma parse_header_line:
  assumes "label_ok k"
  shows "parse_line (acc, cur) ((k @ '',#genre#'') @ [LF]) = (acc, k)"
proof -
  let ?l = "k @ '',#genre#''"
  have ne: "?l \<noteq> []" by simp
  have h: "\<not> py_isspace (hd ?l)"
  proof (cases "k = []")
    case True
    then show ?thesis by (simp add: not_space_comma)
  next
    case False
    with assms show ?thesis by (simp add: label_ok_def no_leading_space_def)
  qed
  have l: "\<not> py_isspace (last ?l)" by (simp add: not_space_hash)
  have s: "py_strip (?l @ [LF]) = ?l" using ne h l by (rule py_strip_terminated)
  have e: "py_endswith ?l '',#genre#''" by (simp add: py_endswith_def)
  have r: "py_replace ?l '',#genre#'' [] = k"
    using assms by (simp add: label_ok_def py_replace_label)
  have "parse_line (acc, cur) (?l @ [LF]) = (acc, py_replace (py_strip (?l @ [LF])) '',#genre#'' [])"
    by (rule parse_line_marker) (simp_all only: s e ne not_False_eq_True)
  with s r show ?thesis by simp
qed

lemma parse_channel_line:
  assumes "channel_ok ch"
  shows "parse_line (acc, cur) (channel_text ch @ [LF]) = (dd_append cur ch acc, cur)"
proof -
  let ?l = "name ch @ '','' @ url ch"
  have ne: "?l \<noteq> []" by simp
  have h: "\<not> py_isspace (hd ?l)"
  proof (cases "name ch = []")
    case True
    then show ?thesis by (simp add: not_space_comma)
  next
    case False
    with assms show ?thesis by (simp add: channel_ok_def no_leading_space_def)
  qed
  have l: "\<not> py_isspace (last ?l)"
  proof (cases "url ch = []")
    case True
    then show ?thesis by (simp add: not_space_comma)
  next
    case False
    with assms show ?thesis by (simp add: channel_ok_def no_trailing_space_def)
  qed
  have s: "py_strip (?l @ [LF]) = ?l" using ne h l by (rule py_strip_terminated)
  have e: "\<not> py_endswith ?l '',#genre#''" using assms by (simp add: channel_ok_def)
  have c: "CHR '','' \<notin> set (name ch)" using assms by (simp add: channel_ok_def)
  have "parse_line (acc, cur) (?l @ [LF])
      = (dd_append cur \<lparr>name = name ch, url = url ch\<rparr> acc, cur)"
  proof (rule parse_line_entry)
    show "py_strip (?l @ [LF]) \<noteq> []" unfolding s by (rule ne)
    show "\<not> py_endswith (py_strip (?l @ [LF])) '',#genre#''" unfolding s by (rule e)
    show "py_strip (?l @ [LF]) = name ch @ '','' @ url ch" by (rule s)
    show "CHR '','' \<notin> set (name ch)" by (rule c)
  qed
  moreover have "\<lparr>name = name ch, url = url ch\<rparr> = ch" by (cases ch) simp
  ultimately show ?thesis by (simp add: channel_text_def)
qed

lemma parse_channel_lines:
  "list_all channel_ok chs \<Longrightarrow>
   foldl parse_line (acc, cur) (terminated (map channel_text chs))
     = (foldl (\<lambda>d ch. dd_append cur ch d) acc chs, cur)"
proof (induction chs arbitrary: acc)
  case Nil
  then show ?case by (simp add: terminated_def)
next
  case (Cons ch chs)
  from Cons.prems have ch: "channel_ok ch" and chs: "list_all channel_ok chs" by simp_all
  have "foldl parse_line (acc, cur) (terminated (map channel_text (ch # chs)))
      = foldl parse_line (parse_line (acc, cur) (channel_text ch @ [LF]))
          (terminated (map channel_text chs))"
    by (simp add: terminated_def)
  also have "\<dots> = foldl parse_line (dd_append cur ch acc, cur) (terminated (map channel_text chs))"
    by (simp only: parse_channel_line [OF ch])
  also have "\<dots> = (foldl (\<lambda>d ch. dd_append cur ch d) (dd_append cur ch acc) chs, cur)"
    using chs by (rule Cons.IH)
  finally show ?case by simp
qed

lemma dd_append_new: "k \<notin> fst ` set acc \<Longrightarrow> dd_append k v acc = acc @ [(k, [v])]"
proof (induction acc)
  case Nil
  then show ?case by simp
next
  case (Cons p acc)
  obtain k' vs where p: "p = (k', vs)" by (cases p)
  with Cons show ?case by auto
qed

lemma dd_append_last:
  "k \<notin> fst ` set acc \<Longrightarrow> dd_append k v (acc @ [(k, vs)]) = acc @ [(k, vs @ [v])]"
proof (induction acc)
  case Nil
  then show ?case by simp
next
  case (Cons p acc)
  obtain k' vs' where p: "p = (k', vs')" by (cases p)
  with Cons show ?case by auto
qed

lemma foldl_dd_append_last:
  "k \<notin> fst ` set acc \<Longrightarrow>
   foldl (\<lambda>d ch. dd_append k ch d) (acc @ [(k, vs)]) chs = acc @ [(k, vs @ chs)]"
proof (induction chs arbitrary: vs)
  case Nil
  then show ?case by simp
next
  case (Cons ch chs)
  then show ?case by (simp add: dd_append_last)
qed

lemma foldl_dd_append_new:
  "k \<notin> fst ` set acc \<Longrightarrow> chs \<noteq> [] \<Longrightarrow>
   foldl (\<lambda>d ch. dd_append k ch d) acc chs = acc @ [(k, chs)]"
proof -
  assume k: "k \<notin> fst ` set acc" and ne: "chs \<noteq> []"
  then obtain ch chs' where c: "chs = ch # chs'" by (cases chs) auto
  show ?thesis using k foldl_dd_append_last [OF k, of "[ch]" chs']
    by (simp add: c dd_append_new)
qed

lemma no_newline_block_lines:
  assumes "block_ok item"
  shows "list_all no_newline (block_lines item)"
proof -
  obtain k chs where item: "item = (k, chs)" by (cases item)
  from assms have k: "no_newline k" and chs: "list_all channel_ok chs"
    by (simp_all add: block_ok_def item label_ok_def)
  have "no_newline (k @ '',#genre#'')" using k by (simp add: no_newline_def)
  moreover have "list_all no_newline (map channel_text chs)"
    using chs by (induction chs) (simp_all add: channel_ok_def channel_text_def no_newline_def)
  ultimately show ?thesis by (simp add: item block_lines_def)
qed

lemma parse_block:
  assumes "block_ok (k, chs)" and "k \<notin> fst ` set acc"
  shows "foldl parse_line (acc, cur) (terminated (block_lines (k, chs))) = (acc @ [(k, chs)], k)"
proof -
  from assms(1) have l: "label_ok k" and ne: "chs \<noteq> []" and c: "list_all channel_ok chs"
    by (simp_all add: block_ok_def)
  have "foldl parse_line (acc, cur) (terminated (block_lines (k, chs)))
      = foldl parse_line (parse_line (acc, cur) ((k @ '',#genre#'') @ [LF]))
          (terminated (map channel_text chs))"
    by (simp add: terminated_def block_lines_def)
  also have "\<dots> = foldl parse_line (acc, k) (terminated (map channel_text chs))"
    by (simp only: parse_header_line [OF l])
  also have "\<dots> = (foldl (\<lambda>d ch. dd_append k ch d) acc chs, k)"
    using c by (rule parse_channel_lines)
  also have "\<dots> = (acc @ [(k, chs)], k)"
    using assms(2) ne by (simp add: foldl_dd_append_new)
  finally show ?thesis .
qed

lemma parse_block_text:
  assumes "block_ok (k, chs)" and "k \<notin> fst ` set acc"
  shows "foldl parse_line (acc, cur) (lines_from [] (category_block (k, chs) @ rest))
           = foldl parse_line (acc @ [(k, chs)], k) (lines_from [] rest)"
proof -
  have "lines_from [] (category_block (k, chs) @ rest)
      = terminated (block_lines (k, chs)) @ lines_from [] rest"
    unfolding category_block_lines
    by (rule lines_from_terminated) (rule no_newline_block_lines [OF assms(1)])
  then show ?thesis by (simp add: parse_block [OF assms])
qed

lemma parse_blocks:
  "list_all block_ok c \<Longrightarrow> distinct (map fst acc @ map fst c) \<Longrightarrow>
   fst (foldl parse_line (acc, cur) (lines_from [] (join_blocks (map category_block c))))
     = acc @ c"
proof (induction c arbitrary: acc cur)
  case Nil
  then show ?case by simp
next
  case (Cons item c)
  obtain k chs where item: "item = (k, chs)" by (cases item)
  from Cons.prems(1) have ok: "block_ok (k, chs)" and oks: "list_all block_ok c"
    by (simp_all add: item)
  from Cons.prems(2) have k: "k \<notin> fst ` set acc"
    and d: "distinct (map fst (acc @ [(k, chs)]) @ map fst c)"
    by (auto simp: item)
  show ?case
  proof (cases "c = []")
    case True
    have "foldl parse_line (acc, cur) (lines_from [] (category_block (k, chs) @ []))
        = foldl parse_line (acc @ [(k, chs)], k) (lines_from [] [])"
      using ok k by (rule parse_block_text)
    with True show ?thesis by (simp add: item)
  next
    case False
    then have "map category_block c \<noteq> []" by simp
    then have j: "join_blocks (map category_block (item # c))
        = category_block (k, chs) @ (LF # join_blocks (map category_block c))"
      using join_blocks_Cons [of "map category_block c" "category_block item"] by (simp add: item)
    have "foldl parse_line (acc, cur) (lines_from [] (join_blocks (map category_block (item # c))))
        = foldl parse_line (acc @ [(k, chs)], k)
            (lines_from [] (LF # join_blocks (map category_block c)))"
      unfolding j using ok k by (rule parse_block_text)
    also have "\<dots> = foldl parse_line (parse_line (acc @ [(k, chs)], k) [LF])
            (lines_from [] (join_blocks (map category_block c)))"
      by simp
    also have "parse_line (acc @ [(k, chs)], k) [LF] = (acc @ [(k, chs)], k)"
      by (rule parse_line_blank) code_simp
    finally have "fst (foldl parse_line (acc, cur)
          (lines_from [] (join_blocks (map category_block (item # c)))))
        = fst (foldl parse_line (acc @ [(k, chs)], k)
            (lines_from [] (join_blocks (map category_block c))))"
      by simp
    also have "\<dots> = (acc @ [(k, chs)]) @ c" using oks d by (rule Cons.IH)
    finally show ?thesis by (simp add: item)
  qed
qed

lemma emitted_all: "list_all block_ok c \<Longrightarrow> emitted c = c"
  by (induction c) (auto simp: emitted_def block_ok_def)

lemma roundtrip_text:
  assumes "roundtrip_ok c"
  shows "parse_lines (file_lines (written_text c)) = c"
proof -
  from assms have ok: "list_all block_ok c" and d: "distinct (map fst [] @ map fst c)"
    by (simp_all add: roundtrip_ok_def wf_dict_def)
  have "written_text c = join_blocks (map category_block c)"
    by (simp add: written_text_spec spec_text_def emitted_all [OF ok])
  then show ?thesis
    using parse_blocks [OF ok d, of "[]"] by (simp add: parse_lines_def file_lines_def)
qed

text \<open>
  Claim C1 as stated does not hold. The catalog below has one non-empty category and no
  line end in its name or URL, but the name holds a comma: the written line is
  \<^verbatim>\<open>a,b,c\<close>, which is read back as the name \<^verbatim>\<open>a\<close> and the URL \<^verbatim>\<open>b,c\<close>.
\<close>

theorem roundtrip_counterexample:
  "list_all no_newline [''a,b'', ''c'']
   \<and> written_text [(''A'', [\<lparr>name = ''a,b'', url = ''c''\<rparr>])] = ''A,#genre#'' @ [LF] @ ''a,b,c'' @ [LF]
   \<and> parse_lines (file_lines (written_text [(''A'', [\<lparr>name = ''a,b'', url = ''c''\<rparr>])]))
       = [(''A'', [\<lparr>name = ''a'', url = ''b,c''\<rparr>])]
   \<and> parse_lines (file_lines (written_text [(''A'', [\<lparr>name = ''a,b'', url = ''c''\<rparr>])]))
       \<noteq> [(''A'', [\<lparr>name = ''a,b'', url = ''c''\<rparr>])]"
  by code_simp

text \<open>
  Claim C1, amended. Writing a catalog and parsing the written text gives back the catalog
  (the same categories in the same order, with the same channels in the same order), also
  through a file of the file system, when: the catalog has distinct keys and no empty
  category; no label, name or URL holds a line end (\<^verbatim>\<open>'\n'\<close> or \<^verbatim>\<open>'\r'\<close>); no label
  begins with whitespace or contains the marker \<^verbatim>\<open>,#genre#\<close>; no name holds a comma or
  begins with whitespace; no URL ends with whitespace; and no line \<^verbatim>\<open><name>,<url>\<close> ends
  with the marker.
\<close>

theorem roundtrip:
  assumes "roundtrip_ok c"
  shows "parse_lines (file_lines (written_text c)) = c
         \<and> fst (read_result_file file_path (save_channels_to_file c file_path w)) = c"
proof -
  have a: "parse_lines (file_lines (written_text c)) = c" using assms by (rule roundtrip_text)
  then have "fst (read_result_file file_path (save_channels_to_file c file_path w)) = c"
    by (simp add: read_result_file_def save_channels_to_file_def)
  with a show ?thesis by simp
qed

text \<open>
  Claim C1, amended, on a catalog of two categories, one with the empty label; a URL with a
  comma, a name with an inner blank, an empty name with an empty URL, a URL that begins with
  blanks.
\<close>

theorem roundtrip_witness:
  "parse_lines (file_lines (written_text
      [(''News'', [\<lparr>name = ''CCTV 1'', url = ''http://[2409:8087:1001::5]/live,x''\<rparr>,
                   \<lparr>name = '''', url = ''''\<rparr>]),
       ('''', [\<lparr>name = ''ESPN'', url = ''  http://[::1]/s''\<rparr>])]))
   = [(''News'', [\<lparr>name = ''CCTV 1'', url = ''http://[2409:8087:1001::5]/live,x''\<rparr>,
                   \<lparr>name = '''', url = ''''\<rparr>]),
       ('''', [\<lparr>name = ''ESPN'', url = ''  http://[::1]/s''\<rparr>])]"
proof -
  let ?c = "[(''News'', [\<lparr>name = ''CCTV 1'', url = ''http://[2409:8087:1001::5]/live,x''\<rparr>,
                   \<lparr>name = '''', url = ''''\<rparr>]),
       ('''', [\<lparr>name = ''ESPN'', url = ''  http://[::1]/s''\<rparr>])]"
  have "roundtrip_ok ?c" by code_simp
  then show ?thesis using roundtrip [of ?c "[]" "\<lparr>files = Map.empty, console = []\<rparr>"] by blast
qed

end
